theory Spec2Isabelle
  imports Main "HOL-Library.AList"
begin

section \<open>Values, failures and requests\<close>

text \<open>
  The module \<open>trezor/loop.py\<close> is a cooperative scheduler over Python generators.
  A task is identified by \<open>id(task)\<close>, a natural number here; the mutable syscall
  objects (\<open>signal\<close>, \<open>spawn\<close>) are identified by a number too and live in a store.
\<close>

type_synonym tid = nat
type_synonym sid = nat
type_synonym pc = nat

text \<open>
  The failures that occur. \<open>GeneratorExit\<close> and \<open>TaskBaseException\<close> derive from
  \<open>BaseException\<close> only; the others derive from \<open>Exception\<close>. \<open>QueueFull\<close> is what
  the timer queue raises at capacity.
\<close>

datatype exc =
    GeneratorExit
  | QueueFull
  | IndexError
  | NameError
  | AttributeError
  | RuntimeError
  | ValueError
  | DriverError
  | TaskError nat
  | TaskBaseException nat

fun is_Exception :: "exc \<Rightarrow> bool" where
  "is_Exception GeneratorExit = False"
| "is_Exception (TaskBaseException _) = False"
| "is_Exception _ = True"

datatype val = VNone | VInt int | VExc exc | VMsg "int list" | VObj nat

text \<open>\<open>isinstance(value, BaseException)\<close>\<close>

fun is_BaseException :: "val \<Rightarrow> bool" where
  "is_BaseException (VExc _) = True"
| "is_BaseException _ = False"

text \<open>
  What a task hands to the scheduler at a suspension point: an instance of a class
  derived from \<open>Syscall\<close> (the base class itself, \<open>sleep\<close>, \<open>wait\<close>, \<open>signal\<close>,
  \<open>spawn\<close>), \<open>None\<close>, or any other object.
\<close>

datatype yielded =
    YBase
  | YSleep int
  | YWait int
  | YSignal sid
  | YSpawn sid
  | YNone
  | YOther val

fun is_Syscall :: "yielded \<Rightarrow> bool" where
  "is_Syscall YNone = False"
| "is_Syscall (YOther _) = False"
| "is_Syscall _ = True"

section \<open>Generators\<close>

text \<open>
  A generator is a state machine: at program point \<open>p\<close>, resumed with \<open>Send v\<close> or with
  \<open>Throw e\<close>, its body runs to the next suspension point or to its end. \<open>Yield y p\<close> is
  a bare \<open>yield y\<close>; \<open>Await y p\<close> is \<open>await y\<close> (or \<open>yield from y\<close>), which suspends
  inside \<open>y.__iter__\<close>, so that an exception thrown in passes through the
  \<open>except\<close> clause of \<open>signal.__iter__\<close> or \<open>spawn.__iter__\<close> first. The body itself
  has no effect on the scheduler but through what it yields.
\<close>

datatype inp = Send val | Throw exc

datatype out = Yield yielded pc | Await yielded pc | Return val | Raise exc

datatype gstate = Suspended pc "yielded option" | Running | Finished

record gen =
  code :: "pc \<Rightarrow> inp \<Rightarrow> out"
  status :: gstate

text \<open>What \<open>task.send\<close> and \<open>task.throw\<close> give back to their caller.\<close>

datatype resumed = Yielded yielded | Returned val | Thrown exc

section \<open>Clock and timer queue\<close>

text \<open>
  Modelled from the spec: the module \<open>utime\<close> is not part of the sources. Ticks are
  microseconds modulo \<open>2 ^ 32\<close>; \<open>ticks_add\<close> wraps, \<open>ticks_diff\<close> is the difference
  read as a signed 32-bit number.
\<close>

definition ticks_add :: "int \<Rightarrow> int \<Rightarrow> int" where
  "ticks_add t d = (t + d) mod 2 ^ 32"

definition ticks_diff :: "int \<Rightarrow> int \<Rightarrow> int" where
  "ticks_diff a b = (a - b + 2 ^ 31) mod 2 ^ 32 - 2 ^ 31"

text \<open>
  Modelled from the spec: the module \<open>utimeq\<close> is not part of the sources. The queue
  holds at most 64 entries \<open>(deadline, task, value)\<close>, ordered by deadline under the
  wrap-aware difference, ties in insertion order. The list is kept in the order in
  which entries leave the queue: \<open>push\<close> puts a new entry before the first entry
  that is strictly later, \<open>pop\<close> takes the head, \<open>peektime\<close> reads the head's deadline,
  \<open>discard\<close> drops the entries of a task.
\<close>

type_synonym entry = "int \<times> tid \<times> val"

definition utimeq_capacity :: nat where
  "utimeq_capacity = 64"

fun insert_entry :: "entry \<Rightarrow> entry list \<Rightarrow> entry list" where
  "insert_entry e [] = [e]"
| "insert_entry e (x # xs) =
     (if ticks_diff (fst e) (fst x) < 0 then e # x # xs else x # insert_entry e xs)"

definition utimeq_push :: "entry list \<Rightarrow> int \<Rightarrow> tid \<Rightarrow> val \<Rightarrow> exc + entry list" where
  "utimeq_push q deadline task v =
     (if utimeq_capacity \<le> length q then Inl QueueFull
      else Inr (insert_entry (deadline, task, v) q))"

definition utimeq_peektime :: "entry list \<Rightarrow> exc + int" where
  "utimeq_peektime q = (case q of [] \<Rightarrow> Inl IndexError | e # _ \<Rightarrow> Inr (fst e))"

definition utimeq_pop :: "entry list \<Rightarrow> exc + (entry \<times> entry list)" where
  "utimeq_pop q = (case q of [] \<Rightarrow> Inl IndexError | e # es \<Rightarrow> Inr (e, es))"

definition utimeq_discard :: "entry list \<Rightarrow> tid \<Rightarrow> entry list" where
  "utimeq_discard q task = filter (\<lambda>e. fst (snd e) \<noteq> task) q"

section \<open>Scheduler state\<close>

text \<open>
  A finalizer is a callable \<open>fn(task, value)\<close>. The module itself installs
  \<open>spawn._finish\<close>; any other finalizer is a callback of the application, which is
  opaque here: calling it is recorded and changes nothing else.
\<close>

datatype finalizer = SpawnFinish sid | Callback nat

text \<open>
  A child of a \<open>spawn\<close> is either a generator already (\<open>isinstance(child, _type_gen)\<close>)
  or another awaitable, from which \<open>iter(child)\<close> makes a new generator.
\<close>

datatype child = ChildGen tid | ChildAwaitable nat

record signal_obj =
  sig_value :: "val option"
  sig_task :: "tid option"

record spawn_obj =
  children :: "child list"
  exit_others :: bool
  finished :: "child list"
  scheduled :: "tid list"
  callback :: "tid option"

datatype level = LogDebug | LogError | LogException

text \<open>
  The observable events, in the order in which they happen: a call of \<open>_step\<close>, a call
  of \<open>io.poll\<close> with its timeout, a call of the \<open>after_step_hook\<close>, a call of a
  finalizer, the installation of a finalizer by \<open>schedule\<close>, a log entry.
\<close>

datatype event =
    EvStep tid val
  | EvPoll int
  | EvHook nat
  | EvFinalizer finalizer tid val
  | EvInstall tid finalizer
  | EvLog level

text \<open>
  The module's globals (\<open>after_step_hook\<close>, \<open>_queue\<close>, \<open>_paused\<close>, \<open>_finalizers\<close>,
  the ring buffer of delays), the clock read by \<open>utime.ticks_us()\<close>, the generator,
  signal and spawn objects, the generator code that \<open>iter\<close> makes from an awaitable,
  and the events so far. \<open>_paused\<close> is a dictionary in insertion order whose values
  are sets, kept as lists without repetition.
\<close>

record sched =
  after_step_hook :: "nat option"
  queue :: "entry list"
  paused :: "(int \<times> tid list) list"
  finalizers :: "tid \<Rightarrow> finalizer option"
  log_delay_pos :: nat
  log_delay_rb :: "int list"
  now :: int
  gens :: "tid \<Rightarrow> gen"
  signals :: "sid \<Rightarrow> signal_obj"
  spawns :: "sid \<Rightarrow> spawn_obj"
  awaitables :: "nat \<Rightarrow> pc \<Rightarrow> inp \<Rightarrow> out"
  next_id :: tid
  trace :: "event list"

text \<open>
  A call either returns or raises; what it did to the globals before raising stays
  done, so a failure carries the state as well. \<open>OutOfFuel\<close> is no Python exception:
  the nested calls of \<open>close\<close> are bounded by a counter.
\<close>

datatype fail = Raised exc | OutOfFuel

type_synonym result = "(fail \<times> sched) + sched"

definition state_of :: "result \<Rightarrow> sched" where
  "state_of r = (case r of Inl (f, s) \<Rightarrow> s | Inr s \<Rightarrow> s)"

definition and_then :: "result \<Rightarrow> (sched \<Rightarrow> result) \<Rightarrow> result" where
  "and_then r f = (case r of Inl e \<Rightarrow> Inl e | Inr s \<Rightarrow> f s)"

definition emit :: "event \<Rightarrow> sched \<Rightarrow> sched" where
  "emit e s = s\<lparr>trace := trace s @ [e]\<rparr>"

definition ticks_us :: "sched \<Rightarrow> int" where
  "ticks_us s = now s"

section \<open>schedule, pause, finalize, close\<close>

definition install :: "sched \<Rightarrow> tid \<Rightarrow> finalizer \<Rightarrow> sched" where
  "install s task f = emit (EvInstall task f) (s\<lparr>finalizers := (finalizers s)(task \<mapsto> f)\<rparr>)"

definition schedule :: "sched \<Rightarrow> tid \<Rightarrow> val \<Rightarrow> int option \<Rightarrow> finalizer option \<Rightarrow> result" where
  "schedule s task v deadline finalizer =
     (let d = (case deadline of None \<Rightarrow> ticks_us s | Some d \<Rightarrow> d);
          s1 = (case finalizer of None \<Rightarrow> s | Some f \<Rightarrow> install s task f)
      in case utimeq_push (queue s1) d task v of
           Inl e \<Rightarrow> Inl (Raised e, s1)
         | Inr q \<Rightarrow> Inr (s1\<lparr>queue := q\<rparr>))"

definition set_add :: "tid \<Rightarrow> tid list \<Rightarrow> tid list" where
  "set_add t ts = (if t \<in> set ts then ts else ts @ [t])"

definition pause :: "sched \<Rightarrow> tid \<Rightarrow> int \<Rightarrow> sched" where
  "pause s task iface =
     (case map_of (paused s) iface of
        None \<Rightarrow> s\<lparr>paused := AList.update iface (set_add task []) (paused s)\<rparr>
      | Some tasks \<Rightarrow> s\<lparr>paused := AList.update iface (set_add task tasks) (paused s)\<rparr>)"

definition paused_discard :: "sched \<Rightarrow> tid \<Rightarrow> sched" where
  "paused_discard s task = s\<lparr>paused := map (\<lambda>(iface, ts). (iface, removeAll task ts)) (paused s)\<rparr>"

definition queue_discard :: "sched \<Rightarrow> tid \<Rightarrow> sched" where
  "queue_discard s task = s\<lparr>queue := utimeq_discard (queue s) task\<rparr>"

definition set_status :: "sched \<Rightarrow> tid \<Rightarrow> gstate \<Rightarrow> sched" where
  "set_status s t st = s\<lparr>gens := (gens s)(t := (gens s t)\<lparr>status := st\<rparr>)\<rparr>"

text \<open>The body of a generator runs from program point \<open>p\<close> to its next suspension or end.\<close>

definition gen_run :: "sched \<Rightarrow> tid \<Rightarrow> pc \<Rightarrow> inp \<Rightarrow> sched \<times> resumed" where
  "gen_run s t p i =
     (case code (gens s t) p i of
        Yield y p' \<Rightarrow> (set_status s t (Suspended p' None), Yielded y)
      | Await y p' \<Rightarrow> (set_status s t (Suspended p' (Some y)), Yielded y)
      | Return v \<Rightarrow> (set_status s t Finished, Returned v)
      | Raise e \<Rightarrow> (set_status s t Finished, Thrown e))"

definition clear_sig_task :: "sched \<Rightarrow> sid \<Rightarrow> sched" where
  "clear_sig_task s g = s\<lparr>signals := (signals s)(g := (signals s g)\<lparr>sig_task := None\<rparr>)\<rparr>"

definition pop_finalizer :: "sched \<Rightarrow> tid \<Rightarrow> finalizer \<Rightarrow> val \<Rightarrow> sched" where
  "pop_finalizer s task fn v =
     emit (EvFinalizer fn task v) (s\<lparr>finalizers := (finalizers s)(task := None)\<rparr>)"

definition append_finished :: "sched \<Rightarrow> sid \<Rightarrow> child \<Rightarrow> sched" where
  "append_finished s sp c =
     s\<lparr>spawns := (spawns s)(sp := (spawns s sp)\<lparr>finished := finished (spawns s sp) @ [c]\<rparr>)\<rparr>"

text \<open>\<open>enumerate(self.scheduled)\<close> searched for the task.\<close>

fun index_of :: "tid \<Rightarrow> tid list \<Rightarrow> nat option" where
  "index_of t [] = None"
| "index_of t (x # xs) = (if x = t then Some 0 else map_option Suc (index_of t xs))"

text \<open>
  \<open>close\<close> calls \<open>task.close()\<close> and \<open>finalize\<close>, and both can come back to \<open>close\<close>
  (through \<open>spawn.exit\<close>). The functions below take the function \<open>close\<close> they call
  back as the parameter \<open>cl\<close>; \<open>close\<close> itself ties the knot, its nested calls
  bounded by a counter.
\<close>

text \<open>\<open>spawn.exit\<close>, as a loop over \<open>self.scheduled\<close>.\<close>

primrec spawn_exit :: "(sched \<Rightarrow> tid \<Rightarrow> result) \<Rightarrow> tid list \<Rightarrow> tid option \<Rightarrow> sched \<Rightarrow> result" where
  "spawn_exit cl [] except_for s = Inr s"
| "spawn_exit cl (task # ts) except_for s =
     (if Some task \<noteq> except_for
      then and_then (cl s task) (spawn_exit cl ts except_for)
      else spawn_exit cl ts except_for s)"

text \<open>
  The \<open>except\<close> clause of \<open>__iter__\<close> in which the generator is suspended:
  \<open>signal.__iter__\<close> clears the signal's task, \<open>spawn.__iter__\<close> calls \<open>self.exit()\<close>,
  \<open>Syscall.__iter__\<close> has none; a bare \<open>yield\<close> is in no \<open>__iter__\<close>.
\<close>

definition unwind :: "(sched \<Rightarrow> tid \<Rightarrow> result) \<Rightarrow> sched \<Rightarrow> yielded option \<Rightarrow> result" where
  "unwind cl s aw =
     (case aw of
        Some (YSignal g) \<Rightarrow> Inr (clear_sig_task s g)
      | Some (YSpawn sp) \<Rightarrow> spawn_exit cl (scheduled (spawns s sp)) None s
      | _ \<Rightarrow> Inr s)"

text \<open>
  The exception that reaches the body after the \<open>except\<close> clause: the one thrown
  (re-raised), or the one the clause raised itself.
\<close>

definition after_unwind ::
  "result \<Rightarrow> tid \<Rightarrow> pc \<Rightarrow> exc \<Rightarrow> (fail \<times> sched) + (sched \<times> resumed)" where
  "after_unwind r t p e =
     (case r of
        Inl (OutOfFuel, s1) \<Rightarrow> Inl (OutOfFuel, s1)
      | Inl (Raised e1, s1) \<Rightarrow> Inr (gen_run s1 t p (Throw e1))
      | Inr s1 \<Rightarrow> Inr (gen_run s1 t p (Throw e)))"

text \<open>
  \<open>gen_resume\<close> is \<open>task.send\<close> and \<open>task.throw\<close>: a finished generator raises
  \<open>StopIteration\<close> on \<open>send\<close> and the thrown exception on \<open>throw\<close>, a generator that is
  executing raises \<open>ValueError\<close>.
\<close>

definition gen_resume ::
  "(sched \<Rightarrow> tid \<Rightarrow> result) \<Rightarrow> sched \<Rightarrow> tid \<Rightarrow> inp \<Rightarrow> (fail \<times> sched) + (sched \<times> resumed)" where
  "gen_resume cl s t i =
     (case status (gens s t) of
        Finished \<Rightarrow> Inr (s, case i of Send v \<Rightarrow> Returned VNone | Throw e \<Rightarrow> Thrown e)
      | Running \<Rightarrow> Inr (s, Thrown ValueError)
      | Suspended p aw \<Rightarrow>
          (case i of
             Send v \<Rightarrow> Inr (gen_run s t p i)
           | Throw e \<Rightarrow> after_unwind (unwind cl (set_status s t Running) aw) t p e))"

text \<open>
  \<open>spawn._finish\<close>: the first child to finish is looked up in \<open>self.scheduled\<close> (the
  name \<open>child\<close> is unbound when it is not there), recorded in \<open>self.finished\<close>, the
  others are closed, and the waiting task is scheduled with the result.
\<close>

definition spawn_finish :: "(sched \<Rightarrow> tid \<Rightarrow> result) \<Rightarrow> sched \<Rightarrow> sid \<Rightarrow> tid \<Rightarrow> val \<Rightarrow> result" where
  "spawn_finish cl s sp task res =
     (if finished (spawns s sp) \<noteq> [] then Inr s
      else (case index_of task (scheduled (spawns s sp)) of
              None \<Rightarrow> Inl (Raised NameError, s)
            | Some idx \<Rightarrow>
                (if length (children (spawns s sp)) \<le> idx then Inl (Raised IndexError, s)
                 else and_then
                        (if exit_others (spawns s sp)
                         then spawn_exit cl (scheduled (spawns s sp)) (Some task)
                                (append_finished s sp (children (spawns s sp) ! idx))
                         else Inr (append_finished s sp (children (spawns s sp) ! idx)))
                        (\<lambda>s1. case callback (spawns s1 sp) of
                                None \<Rightarrow> Inl (Raised AttributeError, s1)
                              | Some cb \<Rightarrow> schedule s1 cb res None None))))"

text \<open>Calling a finalizer \<open>fn(task, value)\<close>.\<close>

definition call_finalizer ::
  "(sched \<Rightarrow> tid \<Rightarrow> result) \<Rightarrow> finalizer \<Rightarrow> sched \<Rightarrow> tid \<Rightarrow> val \<Rightarrow> result" where
  "call_finalizer cl fn s task v =
     (case fn of
        Callback k \<Rightarrow> Inr s
      | SpawnFinish sp \<Rightarrow> spawn_finish cl s sp task v)"

definition finalize :: "(sched \<Rightarrow> tid \<Rightarrow> result) \<Rightarrow> sched \<Rightarrow> tid \<Rightarrow> val \<Rightarrow> result" where
  "finalize cl s task v =
     (case finalizers s task of
        None \<Rightarrow> Inr s
      | Some fn \<Rightarrow> call_finalizer cl fn (pop_finalizer s task fn v) task v)"

text \<open>
  \<open>task.close()\<close> throws \<open>GeneratorExit\<close> into the generator: a generator that yields
  again raises \<open>RuntimeError\<close>, one that ends or lets \<open>GeneratorExit\<close> escape is
  closed, any other exception escapes.
\<close>

definition gen_close :: "(sched \<Rightarrow> tid \<Rightarrow> result) \<Rightarrow> sched \<Rightarrow> tid \<Rightarrow> result" where
  "gen_close cl s task =
     (case gen_resume cl s task (Throw GeneratorExit) of
        Inl e \<Rightarrow> Inl e
      | Inr (s1, Yielded y) \<Rightarrow> Inl (Raised RuntimeError, s1)
      | Inr (s1, Returned v) \<Rightarrow> Inr s1
      | Inr (s1, Thrown e) \<Rightarrow> (if e = GeneratorExit then Inr s1 else Inl (Raised e, s1)))"

definition close_body :: "(sched \<Rightarrow> tid \<Rightarrow> result) \<Rightarrow> sched \<Rightarrow> tid \<Rightarrow> result" where
  "close_body cl s task =
     and_then (gen_close cl (queue_discard (paused_discard s task) task) task)
       (\<lambda>s1. finalize cl s1 task (VExc GeneratorExit))"

primrec close :: "nat \<Rightarrow> sched \<Rightarrow> tid \<Rightarrow> result" where
  "close 0 s task = Inl (OutOfFuel, s)"
| "close (Suc n) s task = close_body (close n) s task"

section \<open>Syscalls\<close>

text \<open>\<open>sleep.handle\<close>\<close>

definition sleep_handle :: "sched \<Rightarrow> int \<Rightarrow> tid \<Rightarrow> result" where
  "sleep_handle s delay_us task =
     (let deadline = ticks_add (ticks_us s) delay_us
      in schedule s task (VInt deadline) (Some deadline) None)"

text \<open>\<open>wait.handle\<close>\<close>

definition wait_handle :: "sched \<Rightarrow> int \<Rightarrow> tid \<Rightarrow> result" where
  "wait_handle s msg_iface task = Inr (pause s task msg_iface)"

text \<open>\<open>signal\<close>: \<open>reset\<close>, \<open>_deliver\<close>, \<open>handle\<close> and \<open>send\<close>; \<open>_NO_VALUE\<close> is \<open>None\<close> here.\<close>

definition signal_reset :: "sched \<Rightarrow> sid \<Rightarrow> sched" where
  "signal_reset s g = s\<lparr>signals := (signals s)(g := \<lparr>sig_value = None, sig_task = None\<rparr>)\<rparr>"

definition signal_deliver :: "sched \<Rightarrow> sid \<Rightarrow> result" where
  "signal_deliver s g =
     (case sig_task (signals s g) of
        None \<Rightarrow> Inr s
      | Some task \<Rightarrow>
          (case sig_value (signals s g) of
             None \<Rightarrow> Inr s
           | Some v \<Rightarrow> and_then (schedule s task v None None) (\<lambda>s1. Inr (signal_reset s1 g))))"

definition signal_handle :: "sched \<Rightarrow> sid \<Rightarrow> tid \<Rightarrow> result" where
  "signal_handle s g task =
     signal_deliver (s\<lparr>signals := (signals s)(g := (signals s g)\<lparr>sig_task := Some task\<rparr>)\<rparr>) g"

definition signal_send :: "sched \<Rightarrow> sid \<Rightarrow> val \<Rightarrow> result" where
  "signal_send s g v =
     signal_deliver (s\<lparr>signals := (signals s)(g := (signals s g)\<lparr>sig_value := Some v\<rparr>)\<rparr>) g"

text \<open>
  \<open>spawn.handle\<close>: the waiting task is kept as \<open>self.callback\<close>, the two lists are
  cleared, and every child is scheduled with \<open>self._finish\<close> as its finalizer.
\<close>

fun materialize :: "sched \<Rightarrow> child \<Rightarrow> sched \<times> tid" where
  "materialize s (ChildGen t) = (s, t)"
| "materialize s (ChildAwaitable a) =
     (s\<lparr>gens := (gens s)(next_id s := \<lparr>code = awaitables s a, status = Suspended 0 None\<rparr>),
        next_id := Suc (next_id s)\<rparr>,
      next_id s)"

definition append_scheduled :: "sched \<Rightarrow> sid \<Rightarrow> tid \<Rightarrow> sched" where
  "append_scheduled s sp t =
     s\<lparr>spawns := (spawns s)(sp := (spawns s sp)\<lparr>scheduled := scheduled (spawns s sp) @ [t]\<rparr>)\<rparr>"

primrec spawn_children :: "sid \<Rightarrow> child list \<Rightarrow> sched \<Rightarrow> result" where
  "spawn_children sp [] s = Inr s"
| "spawn_children sp (c # cs) s =
     (case materialize s c of
        (s1, child_task) \<Rightarrow>
          and_then (schedule s1 child_task VNone None (Some (SpawnFinish sp)))
            (\<lambda>s2. spawn_children sp cs (append_scheduled s2 sp child_task)))"

definition spawn_handle :: "sched \<Rightarrow> sid \<Rightarrow> tid \<Rightarrow> result" where
  "spawn_handle s sp task =
     spawn_children sp (children (spawns s sp))
       (s\<lparr>spawns := (spawns s)(sp := (spawns s sp)\<lparr>finished := [], scheduled := [],
                                                   callback := Some task\<rparr>)\<rparr>)"

text \<open>\<open>result.handle(task)\<close>, by the class of \<open>result\<close>; \<open>Syscall.handle\<close> does nothing.\<close>

fun handle :: "sched \<Rightarrow> yielded \<Rightarrow> tid \<Rightarrow> result" where
  "handle s (YSleep delay_us) task = sleep_handle s delay_us task"
| "handle s (YWait msg_iface) task = wait_handle s msg_iface task"
| "handle s (YSignal g) task = signal_handle s g task"
| "handle s (YSpawn sp) task = spawn_handle s sp task"
| "handle s _ task = Inr s"

section \<open>The stepper and the loop\<close>

definition call_hook :: "sched \<Rightarrow> sched" where
  "call_hook s = (case after_step_hook s of None \<Rightarrow> s | Some h \<Rightarrow> emit (EvHook h) s)"

definition to_inp :: "val \<Rightarrow> inp" where
  "to_inp v = (case v of VExc e \<Rightarrow> Throw e | _ \<Rightarrow> Send v)"

text \<open>What \<open>_step\<close> does with what the task yielded (the \<open>else\<close> branch of its \<open>try\<close>).\<close>

definition dispatch :: "sched \<Rightarrow> tid \<Rightarrow> yielded \<Rightarrow> result" where
  "dispatch s task y =
     and_then
       (if is_Syscall y then handle s y task
        else if y = YNone \<or> y = YOther VNone then schedule s task VNone None None
        else Inr (emit (EvLog LogError) s))
       (\<lambda>s1. Inr (call_hook s1))"

text \<open>\<open>_step\<close>\<close>

definition step :: "nat \<Rightarrow> sched \<Rightarrow> tid \<Rightarrow> val \<Rightarrow> result" where
  "step n s task v =
     (case gen_resume (close n) (emit (EvStep task v) s) task (to_inp v) of
        Inl e \<Rightarrow> Inl e
      | Inr (s1, Returned r) \<Rightarrow> finalize (close n) (emit (EvLog LogDebug) s1) task r
      | Inr (s1, Thrown e) \<Rightarrow>
          (if is_Exception e then finalize (close n) (emit (EvLog LogException) s1) task (VExc e)
           else Inl (Raised e, s1))
      | Inr (s1, Yielded y) \<Rightarrow> dispatch s1 task y)"

text \<open>
  \<open>io.poll\<close> belongs to the driver: what it answers on a turn is given from outside.
  It returns false (a timeout), returns true with \<open>msg_entry\<close> filled, or raises.
\<close>

datatype poll = Timeout | Message int val | PollError exc

definition max_delay :: int where
  "max_delay = 1000000"

definition log_delay_rb_len :: nat where
  "log_delay_rb_len = 10"

definition log_delay :: "sched \<Rightarrow> int \<Rightarrow> sched" where
  "log_delay s delay =
     s\<lparr>log_delay_rb := (log_delay_rb s)[log_delay_pos s := delay],
       log_delay_pos := (log_delay_pos s + 1) mod log_delay_rb_len\<rparr>"

text \<open>The time the loop may wait for a message.\<close>

definition poll_delay :: "sched \<Rightarrow> exc + int" where
  "poll_delay s =
     (if queue s \<noteq> []
      then (case utimeq_peektime (queue s) of
              Inl e \<Rightarrow> Inl e
            | Inr t \<Rightarrow> Inr (ticks_diff t (ticks_us s)))
      else Inr max_delay)"

primrec step_all :: "nat \<Rightarrow> val \<Rightarrow> tid list \<Rightarrow> sched \<Rightarrow> result" where
  "step_all n v [] s = Inr s"
| "step_all n v (task # ts) s = and_then (step n s task v) (step_all n v ts)"

text \<open>The tasks of \<open>_paused.pop(iface, ())\<close> and the state after it.\<close>

definition paused_pop :: "sched \<Rightarrow> int \<Rightarrow> tid list \<times> sched" where
  "paused_pop s iface =
     (case map_of (paused s) iface of
        None \<Rightarrow> ([], s)
      | Some tasks \<Rightarrow> (tasks, s\<lparr>paused := AList.delete iface (paused s)\<rparr>))"

text \<open>One turn of the \<open>while\<close> loop of \<open>run\<close>.\<close>

definition run_turn :: "nat \<Rightarrow> sched \<Rightarrow> poll \<Rightarrow> result" where
  "run_turn n s p =
     (case poll_delay s of
        Inl e \<Rightarrow> Inl (Raised e, s)
      | Inr delay \<Rightarrow>
          (let s1 = emit (EvPoll delay) (log_delay s delay)
           in case p of
                PollError e \<Rightarrow> Inl (Raised e, s1)
              | Message iface payload \<Rightarrow>
                  (case paused_pop s1 iface of
                     (msg_tasks, s2) \<Rightarrow> step_all n payload msg_tasks s2)
              | Timeout \<Rightarrow>
                  (if queue s1 \<noteq> []
                   then (case utimeq_pop (queue s1) of
                           Inl e \<Rightarrow> Inl (Raised e, s1)
                         | Inr ((deadline, task, v), q) \<Rightarrow> step n (s1\<lparr>queue := q\<rparr>) task v)
                   else Inr s1)))"

text \<open>
  \<open>run\<close>, with the answers of \<open>io.poll\<close> for its turns: it returns when queue and
  paused index are both empty, and has not returned when the answers run out before.
\<close>

primrec run :: "nat \<Rightarrow> poll list \<Rightarrow> sched \<Rightarrow> result" where
  "run n [] s = (if queue s \<noteq> [] \<or> paused s \<noteq> [] then Inl (OutOfFuel, s) else Inr s)"
| "run n (p # ps) s =
     (if queue s \<noteq> [] \<or> paused s \<noteq> [] then and_then (run_turn n s p) (run n ps) else Inr s)"

text \<open>\<open>clear\<close>\<close>

definition clear :: "sched \<Rightarrow> sched" where
  "clear s = s\<lparr>queue := [], paused := [], finalizers := (\<lambda>t. None)\<rparr>"

section \<open>Sequences of operations\<close>

text \<open>
  What the application and the environment do to the scheduler: the public functions
  of the module, the methods of a signal, a turn of the loop with the driver's answer,
  the passing of time, and setting the hook. An operation that raises leaves the
  state it reached.
\<close>

datatype op =
    OpSchedule tid val "int option" "finalizer option"
  | OpPause tid int
  | OpFinalize tid val
  | OpClose tid
  | OpClear
  | OpTurn poll
  | OpRun "poll list"
  | OpSend sid val
  | OpReset sid
  | OpTick int
  | OpSetHook "nat option"

fun exec :: "nat \<Rightarrow> sched \<Rightarrow> op \<Rightarrow> sched" where
  "exec n s (OpSchedule task v deadline finalizer) = state_of (schedule s task v deadline finalizer)"
| "exec n s (OpPause task iface) = pause s task iface"
| "exec n s (OpFinalize task v) = state_of (finalize (close n) s task v)"
| "exec n s (OpClose task) = state_of (close (Suc n) s task)"
| "exec n s OpClear = clear s"
| "exec n s (OpTurn p) = state_of (run_turn n s p)"
| "exec n s (OpRun ps) = state_of (run n ps s)"
| "exec n s (OpSend g v) = state_of (signal_send s g v)"
| "exec n s (OpReset g) = signal_reset s g"
| "exec n s (OpTick d) = s\<lparr>now := ticks_add (now s) d\<rparr>"
| "exec n s (OpSetHook h) = s\<lparr>after_step_hook := h\<rparr>"

definition execs :: "nat \<Rightarrow> sched \<Rightarrow> op list \<Rightarrow> sched" where
  "execs n s ops = foldl (exec n) s ops"

text \<open>The state of the module when it has just been loaded.\<close>

definition no_gen :: gen where
  "no_gen = \<lparr>code = (\<lambda>p i. Return VNone), status = Finished\<rparr>"

definition init :: sched where
  "init =
     \<lparr>after_step_hook = None, queue = [], paused = [], finalizers = (\<lambda>t. None),
      log_delay_pos = 0, log_delay_rb = replicate 10 0, now = 0,
      gens = (\<lambda>t. no_gen),
      signals = (\<lambda>g. \<lparr>sig_value = None, sig_task = None\<rparr>),
      spawns = (\<lambda>sp. \<lparr>children = [], exit_others = True, finished = [], scheduled = [],
                       callback = None\<rparr>),
      awaitables = (\<lambda>a p i. Return VNone), next_id = 0, trace = []\<rparr>"

section \<open>Observations on the trace\<close>

text \<open>The events that \<open>s'\<close> has and \<open>s\<close> did not have yet.\<close>

definition new_events :: "sched \<Rightarrow> sched \<Rightarrow> event list" where
  "new_events s s' = drop (length (trace s)) (trace s')"

text \<open>From \<open>s\<close> to \<open>s'\<close> events were only added, and each added event satisfies \<open>P\<close>.\<close>

definition grows :: "(event \<Rightarrow> bool) \<Rightarrow> sched \<Rightarrow> sched \<Rightarrow> bool" where
  "grows P s s' =
     (take (length (trace s)) (trace s') = trace s \<and> list_all P (new_events s s'))"

fun is_step :: "event \<Rightarrow> bool" where
  "is_step (EvStep t v) = True"
| "is_step _ = False"

fun is_hook :: "event \<Rightarrow> bool" where
  "is_hook (EvHook h) = True"
| "is_hook _ = False"

definition not_step :: "event \<Rightarrow> bool" where
  "not_step e = (\<not> is_step e)"

text \<open>The calls of \<open>_step\<close> among some events, in order.\<close>

fun steps_of :: "event list \<Rightarrow> (tid \<times> val) list" where
  "steps_of [] = []"
| "steps_of (EvStep t v # es) = (t, v) # steps_of es"
| "steps_of (_ # es) = steps_of es"

text \<open>The events that do not touch the table of finalizers.\<close>

fun plain :: "event \<Rightarrow> bool" where
  "plain (EvFinalizer f t v) = False"
| "plain (EvInstall t f) = False"
| "plain _ = True"

text \<open>How often a finalizer of task \<open>t\<close> was called, and how often one was installed.\<close>

fun finalizer_calls :: "tid \<Rightarrow> event list \<Rightarrow> nat" where
  "finalizer_calls t [] = 0"
| "finalizer_calls t (EvFinalizer f t' v # es) =
     (if t' = t then Suc (finalizer_calls t es) else finalizer_calls t es)"
| "finalizer_calls t (_ # es) = finalizer_calls t es"

fun installs :: "tid \<Rightarrow> event list \<Rightarrow> nat" where
  "installs t [] = 0"
| "installs t (EvInstall t' f # es) = (if t' = t then Suc (installs t es) else installs t es)"
| "installs t (_ # es) = installs t es"

definition pending :: "sched \<Rightarrow> tid \<Rightarrow> nat" where
  "pending s t = (case finalizers s t of None \<Rightarrow> 0 | Some f \<Rightarrow> 1)"

text \<open>
  The calls made for \<open>t\<close>, and the one still due to an installed finalizer, are covered
  by the installations.
\<close>

definition fin_bound :: "tid \<Rightarrow> sched \<Rightarrow> bool" where
  "fin_bound t s = (finalizer_calls t (trace s) + pending s t \<le> installs t (trace s))"

definition keeps_fin_bound :: "tid \<Rightarrow> sched \<Rightarrow> sched \<Rightarrow> bool" where
  "keeps_fin_bound t s s' = (fin_bound t s \<longrightarrow> fin_bound t s')"

text \<open>
  A relation between the state before and the state after that holds across every
  elementary change of the state the module makes, where the recorded events are
  among those that \<open>P\<close> allows.
\<close>

definition closed_under :: "(event \<Rightarrow> bool) \<Rightarrow> (sched \<Rightarrow> sched \<Rightarrow> bool) \<Rightarrow> bool" where
  "closed_under P R =
     ((\<forall>s. R s s) \<and> (\<forall>a b c. R a b \<longrightarrow> R b c \<longrightarrow> R a c) \<and>
      (\<forall>s x. R s (s\<lparr>gens := x\<rparr>)) \<and>
      (\<forall>s x. R s (s\<lparr>queue := x\<rparr>)) \<and>
      (\<forall>s x. R s (s\<lparr>paused := x\<rparr>)) \<and>
      (\<forall>s x. R s (s\<lparr>signals := x\<rparr>)) \<and>
      (\<forall>s x. R s (s\<lparr>spawns := x\<rparr>)) \<and>
      (\<forall>s x. R s (s\<lparr>next_id := x\<rparr>)) \<and>
      (\<forall>s x. R s (s\<lparr>now := x\<rparr>)) \<and>
      (\<forall>s x. R s (s\<lparr>after_step_hook := x\<rparr>)) \<and>
      (\<forall>s x. R s (log_delay s x)) \<and>
      (\<forall>s. R s (clear s)) \<and>
      (\<forall>s e. P e \<longrightarrow> plain e \<longrightarrow> R s (emit e s)) \<and>
      (\<forall>s t f. P (EvInstall t f) \<longrightarrow> R s (install s t f)) \<and>
      (\<forall>s t f v. P (EvFinalizer f t v) \<longrightarrow> finalizers s t = Some f \<longrightarrow>
         R s (pop_finalizer s t f v)))"

text \<open>The relation holds across every call of \<open>cl\<close>.\<close>

definition honours :: "(sched \<Rightarrow> sched \<Rightarrow> bool) \<Rightarrow> (sched \<Rightarrow> tid \<Rightarrow> result) \<Rightarrow> bool" where
  "honours R cl = (\<forall>s t. R s (state_of (cl s t)))"

definition gstate_of :: "(fail \<times> sched) + (sched \<times> resumed) \<Rightarrow> sched" where
  "gstate_of r = (case r of Inl (f, s) \<Rightarrow> s | Inr (s, x) \<Rightarrow> s)"

text \<open>An \<open>await\<close> whose \<open>__iter__\<close> has no \<open>except\<close> clause, or a bare \<open>yield\<close>.\<close>

fun plain_await :: "yielded option \<Rightarrow> bool" where
  "plain_await (Some (YSignal g)) = False"
| "plain_await (Some (YSpawn sp)) = False"
| "plain_await _ = True"

text \<open>
  A relation between the state before and the state after that holds across every
  elementary change of the state made by \<open>close\<close>, \<open>finalize\<close> and what they call,
  where the generators that are resumed and the tasks whose finalizers are called
  are among those that \<open>T\<close> allows.
\<close>

definition family_closed :: "(tid \<Rightarrow> bool) \<Rightarrow> (sched \<Rightarrow> sched \<Rightarrow> bool) \<Rightarrow> bool" where
  "family_closed T R =
     ((\<forall>s. R s s) \<and> (\<forall>a b c. R a b \<longrightarrow> R b c \<longrightarrow> R a c) \<and>
      (\<forall>s x st. T x \<longrightarrow> R s (set_status s x st)) \<and>
      (\<forall>s x. R s (s\<lparr>queue := x\<rparr>)) \<and>
      (\<forall>s x. R s (s\<lparr>paused := x\<rparr>)) \<and>
      (\<forall>s x. R s (s\<lparr>signals := x\<rparr>)) \<and>
      (\<forall>s x. R s (s\<lparr>spawns := x\<rparr>)) \<and>
      (\<forall>s x f v. T x \<longrightarrow> finalizers s x = Some f \<longrightarrow> R s (pop_finalizer s x f v)))"

text \<open>
  While the generator of \<open>t\<close> is executing, it stays so, and the finalizer of \<open>t\<close> is
  neither called nor removed.
\<close>

definition untouched :: "tid \<Rightarrow> sched \<Rightarrow> sched \<Rightarrow> bool" where
  "untouched t s s' =
     (status (gens s t) = Running \<longrightarrow>
        status (gens s' t) = Running \<and> finalizers s' t = finalizers s t \<and>
        finalizer_calls t (trace s') = finalizer_calls t (trace s))"

text \<open>Once \<open>t\<close> has no finalizer, it gets none and none is called for it.\<close>

definition spent :: "tid \<Rightarrow> sched \<Rightarrow> sched \<Rightarrow> bool" where
  "spent t s s' =
     (finalizers s t = None \<longrightarrow>
        finalizers s' t = None \<and> finalizer_calls t (trace s') = finalizer_calls t (trace s))"

text \<open>What \<open>task.send\<close> or \<open>task.throw\<close> gives to \<open>_step\<close>, when it comes back.\<close>

definition step_outcome :: "nat \<Rightarrow> sched \<Rightarrow> tid \<Rightarrow> val \<Rightarrow> resumed option" where
  "step_outcome n s task v =
     (case gen_resume (close n) (emit (EvStep task v) s) task (to_inp v) of
        Inl e \<Rightarrow> None
      | Inr (s1, x) \<Rightarrow> Some x)"






section \<open>Example tasks and states\<close>

text \<open>A new generator object with the given body, not started yet.\<close>

definition new_task :: "sched \<Rightarrow> tid \<Rightarrow> (pc \<Rightarrow> inp \<Rightarrow> out) \<Rightarrow> sched" where
  "new_task s t c = s\<lparr>gens := (gens s)(t := \<lparr>code = c, status = Suspended 0 None\<rparr>)\<rparr>"

text \<open>\<open>spawn(*children, exit_others=eo)\<close>\<close>

definition new_spawn :: "sched \<Rightarrow> sid \<Rightarrow> child list \<Rightarrow> bool \<Rightarrow> sched" where
  "new_spawn s sp cs eo =
     s\<lparr>spawns := (spawns s)(sp := \<lparr>children = cs, exit_others = eo, finished = [],
                                    scheduled = [], callback = None\<rparr>)\<rparr>"

text \<open>\<open>while True: yield sleep(1000)\<close>\<close>

definition code_sleeper :: "pc \<Rightarrow> inp \<Rightarrow> out" where
  "code_sleeper p i = (case i of Send v \<Rightarrow> Yield (YSleep 1000) (Suc p) | Throw e \<Rightarrow> Raise e)"

text \<open>\<open>return (await spawn_0)\<close>\<close>

definition code_parent :: "pc \<Rightarrow> inp \<Rightarrow> out" where
  "code_parent p i =
     (case i of
        Send v \<Rightarrow> (if p = 0 then Await (YSpawn 0) 1 else Return v)
      | Throw e \<Rightarrow> Raise e)"

text \<open>\<open>yield 5\<close>, then \<open>return\<close>\<close>

definition code_unknown :: "pc \<Rightarrow> inp \<Rightarrow> out" where
  "code_unknown p i =
     (case i of
        Send v \<Rightarrow> (if p = 0 then Yield (YOther (VInt 5)) 1 else Return VNone)
      | Throw e \<Rightarrow> Raise e)"

text \<open>\<open>return 7\<close>\<close>

definition code_return :: "pc \<Rightarrow> inp \<Rightarrow> out" where
  "code_return p i = (case i of Send v \<Rightarrow> Return (VInt 7) | Throw e \<Rightarrow> Raise e)"

text \<open>\<open>raise TaskError(3)\<close>\<close>

definition code_raise :: "pc \<Rightarrow> inp \<Rightarrow> out" where
  "code_raise p i = (case i of Send v \<Rightarrow> Raise (TaskError 3) | Throw e \<Rightarrow> Raise e)"

text \<open>\<open>yield\<close>, then \<open>return\<close>\<close>

definition code_yield :: "pc \<Rightarrow> inp \<Rightarrow> out" where
  "code_yield p i =
     (case i of
        Send v \<Rightarrow> (if p = 0 then Yield YNone 1 else Return VNone)
      | Throw e \<Rightarrow> Raise e)"

text \<open>
  \<open>try: yield wait(1)\<close> with a \<open>finally\<close> clause that raises \<open>TaskError(1)\<close> when the
  generator is unwound.
\<close>

definition code_bad_unwind :: "pc \<Rightarrow> inp \<Rightarrow> out" where
  "code_bad_unwind p i =
     (case i of
        Send v \<Rightarrow> (if p = 0 then Yield (YWait 1) 1 else Return v)
      | Throw e \<Rightarrow> (if p = 0 then Raise e else Raise (TaskError 1)))"

text \<open>\<open>while True: yield wait(1)\<close>\<close>

definition code_waiter :: "pc \<Rightarrow> inp \<Rightarrow> out" where
  "code_waiter p i = (case i of Send v \<Rightarrow> Yield (YWait 1) (Suc p) | Throw e \<Rightarrow> Raise e)"

text \<open>
  Task 1 awaits \<open>spawn(task 2)\<close>: it was scheduled with a finalizer of its own and
  has run one turn, task 2 is scheduled and has not started.
\<close>

definition race_state :: sched where
  "race_state =
     state_of (run_turn 0
       (state_of (schedule
          (new_spawn (new_task (new_task init 1 code_parent) 2 code_sleeper) 0 [ChildGen 2] True)
          1 VNone None (Some (Callback 9))))
       Timeout)"

text \<open>Task 1 awaits a \<open>spawn()\<close> without children; it has not started.\<close>

definition empty_race_state :: sched where
  "empty_race_state = new_spawn (new_task init 1 code_parent) 0 [] True"

text \<open>Task 1, with the given body and a finalizer, is due at time 0; the hook is installed.\<close>

definition hooked_state :: "(pc \<Rightarrow> inp \<Rightarrow> out) \<Rightarrow> sched" where
  "hooked_state c =
     state_of (schedule ((new_task init 1 c)\<lparr>after_step_hook := Some 0\<rparr>) 1 VNone (Some 0)
                 (Some (Callback 9)))"

text \<open>The same at time 10, when the deadline has passed.\<close>

definition late_state :: sched where
  "late_state = (hooked_state code_yield)\<lparr>now := 10\<rparr>"

text \<open>Task 1 is paused on interface 1; unwinding it raises.\<close>

definition bad_unwind_state :: sched where
  "bad_unwind_state = state_of (run_turn 0 (hooked_state code_bad_unwind) Timeout)"

text \<open>Tasks 1 and 2 are paused on interface 1.\<close>

definition waiting_state :: sched where
  "waiting_state = pause (pause (new_task (new_task init 1 code_waiter) 2 code_waiter) 1 1) 2 1"

text \<open>
  A task is scheduled with a finalizer, runs a turn, is closed, and \<open>finalize\<close> is
  called for it once more.
\<close>

definition lifecycle :: "op list" where
  "lifecycle =
     [OpSchedule 1 VNone None (Some (Callback 9)), OpTurn Timeout, OpClose 1, OpFinalize 1 VNone]"

text \<open>
  The state in which \<open>close\<close> leaves a task whose unwinding made no call of its own:
  dropped from paused index and queue, its generator finished.
\<close>

definition unwound :: "sched \<Rightarrow> tid \<Rightarrow> sched" where
  "unwound s t =
     set_status (set_status (queue_discard (paused_discard s t) t) t Running) t Finished"








section \<open>Basic facts\<close>

lemma state_of_simps [simp]: "state_of (Inl (f, s)) = s" "state_of (Inr s) = s"
  by (simp_all add: state_of_def)

lemma gstate_of_simps [simp]: "gstate_of (Inl (f, s)) = s" "gstate_of (Inr (s, x)) = s"
  by (simp_all add: gstate_of_def)

lemma and_then_simps [simp]: "and_then (Inl e) f = Inl e" "and_then (Inr s) f = f s"
  by (simp_all add: and_then_def)


section \<open>Relations kept by the module\<close>

lemma cu_refl: "closed_under P R \<Longrightarrow> R s s"
  by (simp add: closed_under_def)

lemma cu_trans:
  assumes "closed_under P R" and "R a b" and "R b c"
  shows "R a c"
proof -
  from assms(1) have "\<forall>a b c. R a b \<longrightarrow> R b c \<longrightarrow> R a c"
    by (simp add: closed_under_def)
  with assms(2,3) show ?thesis by blast
qed

lemma cu_gens: "closed_under P R \<Longrightarrow> R s (s\<lparr>gens := x\<rparr>)"
  by (simp add: closed_under_def)

lemma cu_queue: "closed_under P R \<Longrightarrow> R s (s\<lparr>queue := x\<rparr>)"
  by (simp add: closed_under_def)

lemma cu_paused: "closed_under P R \<Longrightarrow> R s (s\<lparr>paused := x\<rparr>)"
  by (simp add: closed_under_def)

lemma cu_signals: "closed_under P R \<Longrightarrow> R s (s\<lparr>signals := x\<rparr>)"
  by (simp add: closed_under_def)

lemma cu_spawns: "closed_under P R \<Longrightarrow> R s (s\<lparr>spawns := x\<rparr>)"
  by (simp add: closed_under_def)

lemma cu_next_id: "closed_under P R \<Longrightarrow> R s (s\<lparr>next_id := x\<rparr>)"
  by (simp add: closed_under_def)

lemma cu_now: "closed_under P R \<Longrightarrow> R s (s\<lparr>now := x\<rparr>)"
  by (simp add: closed_under_def)

lemma cu_hook: "closed_under P R \<Longrightarrow> R s (s\<lparr>after_step_hook := x\<rparr>)"
  by (simp add: closed_under_def)

lemma cu_log_delay: "closed_under P R \<Longrightarrow> R s (log_delay s x)"
  by (simp add: closed_under_def)

lemma cu_clear: "closed_under P R \<Longrightarrow> R s (clear s)"
  by (simp add: closed_under_def)

lemma cu_emit: "closed_under P R \<Longrightarrow> P e \<Longrightarrow> plain e \<Longrightarrow> R s (emit e s)"
  by (simp add: closed_under_def)

lemma cu_install: "closed_under P R \<Longrightarrow> P (EvInstall t f) \<Longrightarrow> R s (install s t f)"
  by (simp add: closed_under_def)

lemma cu_pop:
  "closed_under P R \<Longrightarrow> P (EvFinalizer f t v) \<Longrightarrow> finalizers s t = Some f \<Longrightarrow>
   R s (pop_finalizer s t f v)"
  by (simp add: closed_under_def)

lemma cu_status: "closed_under P R \<Longrightarrow> R s (set_status s t st)"
  by (simp add: set_status_def cu_gens)

lemma honoursD: "honours R cl \<Longrightarrow> R s (state_of (cl s t))"
  by (simp add: honours_def)

lemma not_step_simps [simp]:
  "not_step (EvPoll d)" "not_step (EvHook h)" "not_step (EvFinalizer f t v)"
  "not_step (EvInstall t f)" "not_step (EvLog l)" "\<not> not_step (EvStep t v)"
  by (simp_all add: not_step_def)

lemma and_then_rel:
  assumes cu: "closed_under P R" and r: "R s (state_of r)" and f: "\<And>s1. R s1 (state_of (f s1))"
  shows "R s (state_of (and_then r f))"
proof (cases r)
  case (Inl e)
  then show ?thesis using r by simp
next
  case (Inr s1)
  then show ?thesis using r f [of s1] cu_trans [OF cu] by auto
qed

lemma schedule_rel:
  assumes cu: "closed_under P R" and np: "\<forall>e. not_step e \<longrightarrow> P e"
  shows "R s (state_of (schedule s t v d fin))"
proof -
  have i: "R s (case fin of None \<Rightarrow> s | Some f \<Rightarrow> install s t f)"
    using np by (simp add: cu_refl [OF cu] cu_install [OF cu] split: option.splits)
  show ?thesis
    unfolding schedule_def Let_def
    using i cu_trans [OF cu i cu_queue [OF cu]]
    by (simp split: sum.splits)
qed

lemma spawn_exit_rel:
  assumes cu: "closed_under P R" and cl: "honours R cl"
  shows "R s (state_of (spawn_exit cl ts ex s))"
proof (induction ts arbitrary: s)
  case Nil
  show ?case by (simp add: cu_refl [OF cu])
next
  case (Cons t ts)
  show ?case
    using and_then_rel [OF cu honoursD [OF cl], of "spawn_exit cl ts ex" s t] Cons.IH by simp
qed

lemma gen_run_rel:
  assumes cu: "closed_under P R" and r: "R s0 s"
  shows "R s0 (gstate_of (Inr (gen_run s t p i)))"
proof -
  have "R s (fst (gen_run s t p i))"
    by (simp add: gen_run_def cu_status [OF cu] split: out.splits)
  from cu_trans [OF cu r this] show ?thesis
    by (cases "gen_run s t p i") simp
qed

lemma unwind_rel:
  assumes cu: "closed_under P R" and cl: "honours R cl"
  shows "R s (state_of (unwind cl s aw))"
  unfolding unwind_def
  by (simp add: cu_refl [OF cu] clear_sig_task_def cu_signals [OF cu] spawn_exit_rel [OF cu cl]
           split: option.splits yielded.splits)

lemma after_unwind_rel:
  assumes cu: "closed_under P R" and r: "R s (state_of r)"
  shows "R s (gstate_of (after_unwind r t p e))"
proof (cases r)
  case (Inl a)
  obtain f s1 where a: "a = (f, s1)" by (cases a)
  show ?thesis
  proof (cases f)
    case (Raised e1)
    with Inl a r show ?thesis by (simp add: after_unwind_def gen_run_rel [OF cu])
  next
    case OutOfFuel
    with Inl a r show ?thesis by (simp add: after_unwind_def)
  qed
next
  case (Inr s1)
  with r show ?thesis by (simp add: after_unwind_def gen_run_rel [OF cu])
qed

lemma gen_resume_rel:
  assumes cu: "closed_under P R" and cl: "honours R cl"
  shows "R s (gstate_of (gen_resume cl s t i))"
proof (cases "status (gens s t)")
  case (Suspended p aw)
  show ?thesis
  proof (cases i)
    case (Send v)
    with Suspended show ?thesis
      by (simp add: gen_resume_def gen_run_rel [OF cu cu_refl [OF cu]])
  next
    case (Throw e)
    have "R s (state_of (unwind cl (set_status s t Running) aw))"
      by (rule cu_trans [OF cu cu_status [OF cu] unwind_rel [OF cu cl]])
    from after_unwind_rel [OF cu this] Suspended Throw show ?thesis
      by (simp add: gen_resume_def)
  qed
next
  case Running
  then show ?thesis by (simp add: gen_resume_def cu_refl [OF cu])
next
  case Finished
  then show ?thesis by (simp add: gen_resume_def cu_refl [OF cu])
qed

lemma spawn_finish_rel:
  assumes cu: "closed_under P R" and np: "\<forall>e. not_step e \<longrightarrow> P e" and cl: "honours R cl"
  shows "R s (state_of (spawn_finish cl s sp task res))"
proof -
  have sch: "R s1 (state_of (case callback (spawns s1 sp) of
                None \<Rightarrow> Inl (Raised AttributeError, s1)
              | Some cb \<Rightarrow> schedule s1 cb res None None))" for s1
    by (simp add: cu_refl [OF cu] schedule_rel [OF cu np] split: option.splits)
  have af: "R s (append_finished s sp c)" for c
    by (simp add: append_finished_def cu_spawns [OF cu])
  have ex: "R s (state_of (if exit_others (spawns s sp)
                         then spawn_exit cl (scheduled (spawns s sp)) (Some task)
                                (append_finished s sp c)
                         else Inr (append_finished s sp c)))" for c
    using cu_trans [OF cu af spawn_exit_rel [OF cu cl]] af
    by simp
  show ?thesis
    unfolding spawn_finish_def
    using and_then_rel [OF cu ex sch]
    by (simp add: cu_refl [OF cu] split: option.splits)
qed

lemma finalize_rel:
  assumes cu: "closed_under P R" and np: "\<forall>e. not_step e \<longrightarrow> P e" and cl: "honours R cl"
  shows "R s (state_of (finalize cl s task v))"
proof (cases "finalizers s task")
  case None
  then show ?thesis by (simp add: finalize_def cu_refl [OF cu])
next
  case (Some fn)
  have a: "R (pop_finalizer s task fn v)
          (state_of (call_finalizer cl fn (pop_finalizer s task fn v) task v))"
    by (cases fn)
       (simp_all add: call_finalizer_def cu_refl [OF cu] spawn_finish_rel [OF cu np cl])
  have b: "R s (pop_finalizer s task fn v)"
    using np by (simp add: cu_pop [OF cu _ Some])
  from cu_trans [OF cu b a] Some show ?thesis
    by (simp add: finalize_def)
qed

lemma gen_close_rel:
  assumes cu: "closed_under P R" and cl: "honours R cl"
  shows "R s (state_of (gen_close cl s task))"
  using gen_resume_rel [OF cu cl, where s = s and t = task and i = "Throw GeneratorExit"]
  unfolding gen_close_def
  by (auto split: sum.splits prod.splits resumed.splits)

lemma close_body_rel:
  assumes cu: "closed_under P R" and np: "\<forall>e. not_step e \<longrightarrow> P e" and cl: "honours R cl"
  shows "R s (state_of (close_body cl s task))"
proof -
  have "R s (queue_discard (paused_discard s task) task)"
    unfolding queue_discard_def paused_discard_def
    by (rule cu_trans [OF cu cu_paused [OF cu] cu_queue [OF cu]])
  from cu_trans [OF cu this gen_close_rel [OF cu cl]]
  have "R s (state_of (gen_close cl (queue_discard (paused_discard s task) task) task))" .
  from and_then_rel [OF cu this finalize_rel [OF cu np cl]]
  show ?thesis by (simp add: close_body_def)
qed

lemma close_rel:
  assumes cu: "closed_under P R" and np: "\<forall>e. not_step e \<longrightarrow> P e"
  shows "R s (state_of (close n s task))"
proof (induction n arbitrary: s task)
  case 0
  show ?case by (simp add: cu_refl [OF cu])
next
  case (Suc n)
  have "honours R (close n)" using Suc.IH by (simp add: honours_def)
  from close_body_rel [OF cu np this] show ?case by simp
qed

lemma close_honours:
  "closed_under P R \<Longrightarrow> \<forall>e. not_step e \<longrightarrow> P e \<Longrightarrow> honours R (close n)"
  by (simp add: honours_def close_rel)


lemma pause_rel: "closed_under P R \<Longrightarrow> R s (pause s t iface)"
  by (simp add: pause_def cu_paused split: option.splits)

lemma signal_reset_rel: "closed_under P R \<Longrightarrow> R s (signal_reset s g)"
  by (simp add: signal_reset_def cu_signals)

lemma signal_deliver_rel:
  assumes cu: "closed_under P R" and np: "\<forall>e. not_step e \<longrightarrow> P e"
  shows "R s (state_of (signal_deliver s g))"
proof -
  have "R s (state_of (and_then (schedule s t v None None) (\<lambda>s1. Inr (signal_reset s1 g))))"
    for t v
    by (rule and_then_rel [OF cu schedule_rel [OF cu np]]) (simp add: signal_reset_rel [OF cu])
  then show ?thesis
    by (simp add: signal_deliver_def cu_refl [OF cu] split: option.splits)
qed

lemma signal_handle_rel:
  assumes cu: "closed_under P R" and np: "\<forall>e. not_step e \<longrightarrow> P e"
  shows "R s (state_of (signal_handle s g t))"
  unfolding signal_handle_def
  by (rule cu_trans [OF cu cu_signals [OF cu] signal_deliver_rel [OF cu np]])

lemma signal_send_rel:
  assumes cu: "closed_under P R" and np: "\<forall>e. not_step e \<longrightarrow> P e"
  shows "R s (state_of (signal_send s g v))"
  unfolding signal_send_def
  by (rule cu_trans [OF cu cu_signals [OF cu] signal_deliver_rel [OF cu np]])

lemma materialize_rel: "closed_under P R \<Longrightarrow> R s (fst (materialize s c))"
proof (cases c)
  case (ChildGen t)
  assume "closed_under P R"
  then show ?thesis using ChildGen by (simp add: cu_refl)
next
  case (ChildAwaitable a)
  assume cu: "closed_under P R"
  have "R s ((s\<lparr>gens := (gens s)(next_id s := \<lparr>code = awaitables s a, status = Suspended 0 None\<rparr>)\<rparr>)
             \<lparr>next_id := Suc (next_id s)\<rparr>)"
    by (rule cu_trans [OF cu cu_gens [OF cu] cu_next_id [OF cu]])
  then show ?thesis using ChildAwaitable by simp
qed

lemma spawn_children_rel:
  assumes cu: "closed_under P R" and np: "\<forall>e. not_step e \<longrightarrow> P e"
  shows "R s (state_of (spawn_children sp cs s))"
proof (induction cs arbitrary: s)
  case Nil
  show ?case by (simp add: cu_refl [OF cu])
next
  case (Cons c cs)
  obtain s1 ct where m: "materialize s c = (s1, ct)" by (cases "materialize s c")
  have a: "R s s1" using materialize_rel [OF cu, of s c] m by simp
  have b: "R s2 (state_of (spawn_children sp cs (append_scheduled s2 sp ct)))" for s2
    by (rule cu_trans [OF cu _ Cons.IH]) (simp add: append_scheduled_def cu_spawns [OF cu])
  have "R s1 (state_of (and_then (schedule s1 ct VNone None (Some (SpawnFinish sp)))
            (\<lambda>s2. spawn_children sp cs (append_scheduled s2 sp ct))))"
    by (rule and_then_rel [OF cu schedule_rel [OF cu np] b])
  from cu_trans [OF cu a this] m show ?case by simp
qed

lemma spawn_handle_rel:
  assumes cu: "closed_under P R" and np: "\<forall>e. not_step e \<longrightarrow> P e"
  shows "R s (state_of (spawn_handle s sp t))"
  unfolding spawn_handle_def
  by (rule cu_trans [OF cu cu_spawns [OF cu] spawn_children_rel [OF cu np]])

lemma handle_rel:
  assumes cu: "closed_under P R" and np: "\<forall>e. not_step e \<longrightarrow> P e"
  shows "R s (state_of (handle s y t))"
  by (cases y)
     (simp_all add: cu_refl [OF cu] sleep_handle_def Let_def schedule_rel [OF cu np]
        wait_handle_def pause_rel [OF cu] signal_handle_rel [OF cu np]
        spawn_handle_rel [OF cu np])

lemma call_hook_rel:
  assumes cu: "closed_under P R" and np: "\<forall>e. not_step e \<longrightarrow> P e"
  shows "R s (call_hook s)"
  using np by (simp add: call_hook_def cu_refl [OF cu] cu_emit [OF cu] split: option.splits)

lemma dispatch_rel:
  assumes cu: "closed_under P R" and np: "\<forall>e. not_step e \<longrightarrow> P e"
  shows "R s (state_of (dispatch s t y))"
proof -
  have "R s (emit (EvLog LogError) s)"
    using np by (simp add: cu_emit [OF cu])
  then have a: "R s (state_of (if is_Syscall y then handle s y t
        else if y = YNone \<or> y = YOther VNone then schedule s t VNone None None
        else Inr (emit (EvLog LogError) s)))"
    by (simp add: handle_rel [OF cu np] schedule_rel [OF cu np])
  show ?thesis
    unfolding dispatch_def
    by (rule and_then_rel [OF cu a]) (simp add: call_hook_rel [OF cu np])
qed

text \<open>What \<open>_step\<close> does after it has been entered.\<close>

lemma step_rel_inner:
  assumes cu: "closed_under P R" and np: "\<forall>e. not_step e \<longrightarrow> P e"
  shows "R (emit (EvStep t v) s) (state_of (step n s t v))"
proof -
  let ?s0 = "emit (EvStep t v) s"
  note cl = close_honours [OF cu np, of n]
  have g: "R ?s0 (gstate_of (gen_resume (close n) ?s0 t (to_inp v)))"
    by (rule gen_resume_rel [OF cu cl])
  have lg: "R s1 (emit (EvLog l) s1)" for s1 l
    using np by (simp add: cu_emit [OF cu])
  have f: "R s1 (state_of (finalize (close n) (emit (EvLog l) s1) t r))" for s1 l r
    by (rule cu_trans [OF cu lg finalize_rel [OF cu np cl]])
  show ?thesis
  proof (cases "gen_resume (close n) ?s0 t (to_inp v)")
    case (Inl a)
    then show ?thesis using g by (cases a) (simp add: step_def)
  next
    case (Inr b)
    obtain s1 x where b: "b = (s1, x)" by (cases b)
    from g Inr b have r1: "R ?s0 s1" by simp
    show ?thesis
    proof (cases x)
      case (Yielded y)
      from cu_trans [OF cu r1 dispatch_rel [OF cu np]] Inr b Yielded show ?thesis
        by (simp add: step_def)
    next
      case (Returned r)
      from cu_trans [OF cu r1 f] Inr b Returned show ?thesis
        by (simp add: step_def)
    next
      case (Thrown e)
      from cu_trans [OF cu r1 f] r1 Inr b Thrown show ?thesis
        by (simp add: step_def)
    qed
  qed
qed

lemma step_rel:
  assumes cu: "closed_under P R" and al: "\<forall>e. P e"
  shows "R s (state_of (step n s t v))"
proof -
  have "R s (emit (EvStep t v) s)" using al by (simp add: cu_emit [OF cu])
  moreover have "R (emit (EvStep t v) s) (state_of (step n s t v))"
    using al by (simp add: step_rel_inner [OF cu])
  ultimately show ?thesis by (rule cu_trans [OF cu])
qed

lemma step_all_rel:
  assumes cu: "closed_under P R" and al: "\<forall>e. P e"
  shows "R s (state_of (step_all n v ts s))"
proof (induction ts arbitrary: s)
  case Nil
  show ?case by (simp add: cu_refl [OF cu])
next
  case (Cons t ts)
  show ?case
    using and_then_rel [OF cu step_rel [OF cu al], of "step_all n v ts" s n t v] Cons.IH
    by simp
qed

lemma paused_pop_rel: "closed_under P R \<Longrightarrow> R s (snd (paused_pop s iface))"
  by (simp add: paused_pop_def cu_refl cu_paused split: option.splits)

lemma run_turn_rel:
  assumes cu: "closed_under P R" and al: "\<forall>e. P e"
  shows "R s (state_of (run_turn n s p))"
proof (cases "poll_delay s")
  case (Inl e)
  then show ?thesis by (simp add: run_turn_def cu_refl [OF cu])
next
  case (Inr delay)
  let ?s1 = "emit (EvPoll delay) (log_delay s delay)"
  have "R (log_delay s delay) ?s1" using al by (simp add: cu_emit [OF cu])
  from cu_trans [OF cu cu_log_delay [OF cu] this] have s1: "R s ?s1" .
  show ?thesis
  proof (cases p)
    case Timeout
    have "R ?s1 (state_of (step n (?s1\<lparr>queue := q\<rparr>) t v))" for q t v
      by (rule cu_trans [OF cu cu_queue [OF cu] step_rel [OF cu al]])
    from cu_trans [OF cu s1 this] s1 Inr Timeout show ?thesis
      by (simp add: run_turn_def Let_def utimeq_pop_def split: list.splits prod.splits)
  next
    case (Message iface payload)
    obtain ts s2 where pp: "paused_pop ?s1 iface = (ts, s2)" by (cases "paused_pop ?s1 iface")
    have "R ?s1 s2" using paused_pop_rel [OF cu, of ?s1 iface] pp by simp
    from cu_trans [OF cu s1 cu_trans [OF cu this step_all_rel [OF cu al]]] Inr Message pp
    show ?thesis by (simp add: run_turn_def Let_def)
  next
    case (PollError e)
    with s1 Inr show ?thesis by (simp add: run_turn_def Let_def)
  qed
qed

lemma run_rel:
  assumes cu: "closed_under P R" and al: "\<forall>e. P e"
  shows "R s (state_of (run n ps s))"
proof (induction ps arbitrary: s)
  case Nil
  show ?case by (simp add: cu_refl [OF cu])
next
  case (Cons p ps)
  show ?case
    using and_then_rel [OF cu run_turn_rel [OF cu al], of "run n ps" s n p] Cons.IH
    by (simp add: cu_refl [OF cu])
qed

lemma exec_rel:
  assumes cu: "closed_under P R" and al: "\<forall>e. P e"
  shows "R s (exec n s x)"
proof -
  have np: "\<forall>e. not_step e \<longrightarrow> P e" using al by simp
  show ?thesis
    by (cases x)
       (simp_all add: schedule_rel [OF cu np] pause_rel [OF cu]
          finalize_rel [OF cu np close_honours [OF cu np]] close_rel [OF cu np, of _ "Suc n", simplified]
          cu_clear [OF cu] run_turn_rel [OF cu al] run_rel [OF cu al] signal_send_rel [OF cu np]
          signal_reset_rel [OF cu] cu_now [OF cu] cu_hook [OF cu])
qed

lemma execs_rel:
  assumes cu: "closed_under P R" and al: "\<forall>e. P e"
  shows "R s (execs n s xs)"
  unfolding execs_def
proof (induction xs arbitrary: s)
  case Nil
  show ?case by (simp add: cu_refl [OF cu])
next
  case (Cons x xs)
  show ?case using cu_trans [OF cu exec_rel [OF cu al] Cons.IH] by simp
qed


section \<open>Two such relations\<close>

lemma grows_iff: "grows P s s' \<longleftrightarrow> (\<exists>es. trace s' = trace s @ es \<and> list_all P es)"
proof
  assume g: "grows P s s'"
  then have "trace s' = trace s @ new_events s s'"
    unfolding grows_def new_events_def by (metis append_take_drop_id)
  with g show "\<exists>es. trace s' = trace s @ es \<and> list_all P es"
    unfolding grows_def by blast
next
  assume "\<exists>es. trace s' = trace s @ es \<and> list_all P es"
  then show "grows P s s'" by (auto simp: grows_def new_events_def)
qed

lemma growsI: "trace s' = trace s @ es \<Longrightarrow> list_all P es \<Longrightarrow> grows P s s'"
  unfolding grows_iff by blast

lemma grows_new_events: "grows P s s' \<Longrightarrow> trace s' = trace s @ new_events s s'"
  unfolding grows_iff new_events_def by auto

lemma grows_trans: "grows P a b \<Longrightarrow> grows P b c \<Longrightarrow> grows P a c"
  unfolding grows_iff by auto

lemma closed_under_grows: "closed_under P (grows P)"
  unfolding closed_under_def
proof (intro conjI allI impI)
  fix a b c assume "grows P a b" and "grows P b c"
  then show "grows P a c" by (rule grows_trans)
qed (simp_all add: grows_iff log_delay_def clear_def emit_def install_def pop_finalizer_def)

lemma finalizer_calls_append [simp]:
  "finalizer_calls t (es @ es') = finalizer_calls t es + finalizer_calls t es'"
  by (induction t es rule: finalizer_calls.induct) simp_all

lemma installs_append [simp]: "installs t (es @ es') = installs t es + installs t es'"
  by (induction t es rule: installs.induct) simp_all

lemma plain_counts: "plain e \<Longrightarrow> finalizer_calls t [e] = 0 \<and> installs t [e] = 0"
  by (cases e) simp_all

lemma closed_under_fin_bound: "closed_under (\<lambda>e. True) (keeps_fin_bound t)"
  unfolding closed_under_def keeps_fin_bound_def
proof (intro conjI allI impI)
  fix s e assume "plain e" and "fin_bound t s"
  then show "fin_bound t (emit e s)"
    using plain_counts [of e t] by (simp add: fin_bound_def pending_def emit_def)
next
  fix s t' f assume "fin_bound t s"
  then show "fin_bound t (install s t' f)"
    by (auto simp: fin_bound_def pending_def emit_def install_def split: option.splits)
next
  fix s t' f v assume "finalizers s t' = Some f" and "fin_bound t s"
  then show "fin_bound t (pop_finalizer s t' f v)"
    by (auto simp: fin_bound_def pending_def emit_def pop_finalizer_def split: option.splits)
qed (simp_all add: fin_bound_def pending_def log_delay_def clear_def)

section \<open>Relations kept by \<open>close\<close> and \<open>finalize\<close>\<close>

lemma fc_refl: "family_closed T R \<Longrightarrow> R s s"
  by (simp add: family_closed_def)

lemma fc_trans:
  assumes "family_closed T R" and "R a b" and "R b c"
  shows "R a c"
proof -
  from assms(1) have "\<forall>a b c. R a b \<longrightarrow> R b c \<longrightarrow> R a c"
    by (simp add: family_closed_def)
  with assms(2,3) show ?thesis by blast
qed

lemma fc_status: "family_closed T R \<Longrightarrow> T x \<Longrightarrow> R s (set_status s x st)"
  by (simp add: family_closed_def)

lemma fc_queue: "family_closed T R \<Longrightarrow> R s (s\<lparr>queue := x\<rparr>)"
  by (simp add: family_closed_def)

lemma fc_paused: "family_closed T R \<Longrightarrow> R s (s\<lparr>paused := x\<rparr>)"
  by (simp add: family_closed_def)

lemma fc_signals: "family_closed T R \<Longrightarrow> R s (s\<lparr>signals := x\<rparr>)"
  by (simp add: family_closed_def)

lemma fc_spawns: "family_closed T R \<Longrightarrow> R s (s\<lparr>spawns := x\<rparr>)"
  by (simp add: family_closed_def)

lemma fc_pop:
  "family_closed T R \<Longrightarrow> T x \<Longrightarrow> finalizers s x = Some f \<Longrightarrow> R s (pop_finalizer s x f v)"
  by (simp add: family_closed_def)

lemma and_then_fam:
  assumes fc: "family_closed T R" and r: "R s (state_of r)" and f: "\<And>s1. R s1 (state_of (f s1))"
  shows "R s (state_of (and_then r f))"
proof (cases r)
  case (Inl e)
  then show ?thesis using r by simp
next
  case (Inr s1)
  then show ?thesis using r f [of s1] fc_trans [OF fc] by auto
qed

lemma schedule_plain_fam: "family_closed T R \<Longrightarrow> R s (state_of (schedule s t v d None))"
  by (simp add: schedule_def Let_def fc_refl fc_queue split: sum.splits)

lemma spawn_exit_fam:
  assumes fc: "family_closed T R" and cl: "honours R cl"
  shows "R s (state_of (spawn_exit cl ts ex s))"
proof (induction ts arbitrary: s)
  case Nil
  show ?case by (simp add: fc_refl [OF fc])
next
  case (Cons t ts)
  show ?case
    using and_then_fam [OF fc honoursD [OF cl], of "spawn_exit cl ts ex" s t] Cons.IH by simp
qed

lemma gen_run_fam:
  assumes fc: "family_closed T R" and t: "T t" and r: "R s0 s"
  shows "R s0 (gstate_of (Inr (gen_run s t p i)))"
proof -
  have "R s (fst (gen_run s t p i))"
    by (simp add: gen_run_def fc_status [OF fc t] split: out.splits)
  from fc_trans [OF fc r this] show ?thesis
    by (cases "gen_run s t p i") simp
qed

lemma unwind_fam:
  assumes fc: "family_closed T R" and cl: "honours R cl"
  shows "R s (state_of (unwind cl s aw))"
  unfolding unwind_def
  by (simp add: fc_refl [OF fc] clear_sig_task_def fc_signals [OF fc] spawn_exit_fam [OF fc cl]
           split: option.splits yielded.splits)

lemma after_unwind_fam:
  assumes fc: "family_closed T R" and t: "T t" and r: "R s (state_of r)"
  shows "R s (gstate_of (after_unwind r t p e))"
proof (cases r)
  case (Inl a)
  obtain f s1 where a: "a = (f, s1)" by (cases a)
  show ?thesis
  proof (cases f)
    case (Raised e1)
    with Inl a r show ?thesis by (simp add: after_unwind_def gen_run_fam [OF fc t])
  next
    case OutOfFuel
    with Inl a r show ?thesis by (simp add: after_unwind_def)
  qed
next
  case (Inr s1)
  with r show ?thesis by (simp add: after_unwind_def gen_run_fam [OF fc t])
qed

lemma gen_resume_fam:
  assumes fc: "family_closed T R" and t: "T t" and cl: "honours R cl"
  shows "R s (gstate_of (gen_resume cl s t i))"
proof (cases "status (gens s t)")
  case (Suspended p aw)
  show ?thesis
  proof (cases i)
    case (Send v)
    with Suspended show ?thesis
      by (simp add: gen_resume_def gen_run_fam [OF fc t fc_refl [OF fc]])
  next
    case (Throw e)
    have "R s (state_of (unwind cl (set_status s t Running) aw))"
      by (rule fc_trans [OF fc fc_status [OF fc t] unwind_fam [OF fc cl]])
    from after_unwind_fam [OF fc t this] Suspended Throw show ?thesis
      by (simp add: gen_resume_def)
  qed
next
  case Running
  then show ?thesis by (simp add: gen_resume_def fc_refl [OF fc])
next
  case Finished
  then show ?thesis by (simp add: gen_resume_def fc_refl [OF fc])
qed

lemma spawn_finish_fam:
  assumes fc: "family_closed T R" and cl: "honours R cl"
  shows "R s (state_of (spawn_finish cl s sp task res))"
proof -
  have sch: "R s1 (state_of (case callback (spawns s1 sp) of
                None \<Rightarrow> Inl (Raised AttributeError, s1)
              | Some cb \<Rightarrow> schedule s1 cb res None None))" for s1
    by (simp add: fc_refl [OF fc] schedule_plain_fam [OF fc] split: option.splits)
  have af: "R s (append_finished s sp c)" for c
    by (simp add: append_finished_def fc_spawns [OF fc])
  have ex: "R s (state_of (if exit_others (spawns s sp)
                         then spawn_exit cl (scheduled (spawns s sp)) (Some task)
                                (append_finished s sp c)
                         else Inr (append_finished s sp c)))" for c
    using fc_trans [OF fc af spawn_exit_fam [OF fc cl]] af
    by simp
  show ?thesis
    unfolding spawn_finish_def
    using and_then_fam [OF fc ex sch]
    by (simp add: fc_refl [OF fc] split: option.splits)
qed

lemma call_finalizer_fam:
  assumes fc: "family_closed T R" and cl: "honours R cl"
  shows "R s (state_of (call_finalizer cl fn s task v))"
  by (cases fn) (simp_all add: call_finalizer_def fc_refl [OF fc] spawn_finish_fam [OF fc cl])

lemma finalize_fam:
  assumes fc: "family_closed T R" and t: "T task" and cl: "honours R cl"
  shows "R s (state_of (finalize cl s task v))"
proof (cases "finalizers s task")
  case None
  then show ?thesis by (simp add: finalize_def fc_refl [OF fc])
next
  case (Some fn)
  from fc_trans [OF fc fc_pop [OF fc t Some] call_finalizer_fam [OF fc cl]] Some
  show ?thesis by (simp add: finalize_def)
qed

lemma gen_close_fam:
  assumes fc: "family_closed T R" and t: "T task" and cl: "honours R cl"
  shows "R s (state_of (gen_close cl s task))"
  using gen_resume_fam [OF fc t cl, where s = s and i = "Throw GeneratorExit"]
  unfolding gen_close_def
  by (auto split: sum.splits prod.splits resumed.splits)

lemma close_body_fam:
  assumes fc: "family_closed T R" and t: "T task" and cl: "honours R cl"
  shows "R s (state_of (close_body cl s task))"
proof -
  have "R s (queue_discard (paused_discard s task) task)"
    unfolding queue_discard_def paused_discard_def
    by (rule fc_trans [OF fc fc_paused [OF fc] fc_queue [OF fc]])
  from fc_trans [OF fc this gen_close_fam [OF fc t cl]]
  have "R s (state_of (gen_close cl (queue_discard (paused_discard s task) task) task))" .
  from and_then_fam [OF fc this finalize_fam [OF fc t cl]]
  show ?thesis by (simp add: close_body_def)
qed

lemma close_fam:
  assumes fc: "family_closed T R"
    and other: "\<And>n s x. \<not> T x \<Longrightarrow> R s (state_of (close n s x))"
  shows "R s (state_of (close n s x))"
proof (induction n arbitrary: s x)
  case 0
  show ?case by (simp add: fc_refl [OF fc])
next
  case (Suc n)
  show ?case
  proof (cases "T x")
    case True
    have "honours R (close n)" using Suc.IH by (simp add: honours_def)
    from close_body_fam [OF fc True this] show ?thesis by simp
  next
    case False
    then show ?thesis by (rule other)
  qed
qed

lemma family_closed_grows: "family_closed (\<lambda>x. True) (grows (\<lambda>e. True))"
  unfolding family_closed_def
proof (intro conjI allI impI)
  fix a b c :: sched assume "grows (\<lambda>e. True) a b" and "grows (\<lambda>e. True) b c"
  then show "grows (\<lambda>e. True) a c" by (rule grows_trans)
qed (simp_all add: grows_iff set_status_def emit_def pop_finalizer_def)

lemma family_closed_spent: "family_closed (\<lambda>x. True) (spent t)"
  unfolding family_closed_def spent_def
  by (intro conjI allI impI)
     (auto simp: set_status_def emit_def pop_finalizer_def)

lemma family_closed_untouched: "family_closed (\<lambda>x. x \<noteq> t) (untouched t)"
  unfolding family_closed_def untouched_def
  by (intro conjI allI impI)
     (auto simp: set_status_def emit_def pop_finalizer_def)

lemma close_running:
  assumes "status (gens s t) = Running"
  shows "close (Suc n) s t = Inl (Raised ValueError, queue_discard (paused_discard s t) t)"
  using assms
  by (simp add: close_body_def gen_close_def gen_resume_def queue_discard_def paused_discard_def)

lemma close_untouched: "untouched t s (state_of (close n s x))"
proof (rule close_fam [OF family_closed_untouched])
  fix n s x assume "\<not> x \<noteq> t"
  then have x: "x = t" by simp
  show "untouched t s (state_of (close n s x))"
  proof (cases n)
    case 0
    then show ?thesis by (simp add: untouched_def)
  next
    case (Suc m)
    show ?thesis
      unfolding untouched_def x Suc
    proof (intro impI)
      assume r: "status (gens s t) = Running"
      have "state_of (close (Suc m) s t) = queue_discard (paused_discard s t) t"
        by (simp only: close_running [OF r] state_of_simps)
      then show "status (gens (state_of (close (Suc m) s t)) t) = Running \<and>
          finalizers (state_of (close (Suc m) s t)) t = finalizers s t \<and>
          finalizer_calls t (trace (state_of (close (Suc m) s t))) = finalizer_calls t (trace s)"
        using r by (simp add: queue_discard_def paused_discard_def)
    qed
  qed
qed

lemma close_spent: "spent t s (state_of (close n s x))"
  by (rule close_fam [OF family_closed_spent]) simp

lemma close_grows: "grows (\<lambda>e. True) s (state_of (close n s x))"
  by (rule close_fam [OF family_closed_grows]) simp

section \<open>The calls of \<open>_step\<close> on the trace\<close>


lemma code_set_status: "code (gens (set_status s t st) t') = code (gens s t')"
  by (simp add: set_status_def)

lemma poll_delay_eq:
  "poll_delay s = Inr (case queue s of [] \<Rightarrow> max_delay | e # q \<Rightarrow> ticks_diff (fst e) (now s))"
  by (simp add: poll_delay_def utimeq_peektime_def ticks_us_def split: list.splits)


lemma steps_of_append [simp]: "steps_of (xs @ ys) = steps_of xs @ steps_of ys"
  by (induction xs rule: steps_of.induct) simp_all

lemma steps_of_not_step: "list_all not_step es \<Longrightarrow> steps_of es = []"
  by (induction es rule: steps_of.induct) simp_all

lemma new_events_append:
  assumes "grows P a b" and "grows Q b c"
  shows "new_events a c = new_events a b @ new_events b c"
proof -
  from assms obtain es fs where "trace b = trace a @ es" and "trace c = trace b @ fs"
    unfolding grows_iff by blast
  then show ?thesis by (simp add: new_events_def)
qed

lemma step_grows: "grows (\<lambda>e. True) s (state_of (step n s t v))"
  by (rule step_rel [OF closed_under_grows]) simp

lemma step_all_grows: "grows (\<lambda>e. True) s (state_of (step_all n v ts s))"
  by (rule step_all_rel [OF closed_under_grows]) simp

lemma step_steps: "steps_of (new_events s (state_of (step n s t v))) = [(t, v)]"
proof -
  have "grows not_step (emit (EvStep t v) s) (state_of (step n s t v))"
    by (rule step_rel_inner [OF closed_under_grows]) simp
  then obtain es where "trace (state_of (step n s t v)) = trace (emit (EvStep t v) s) @ es"
    and "list_all not_step es"
    unfolding grows_iff by blast
  then show ?thesis
    by (simp add: new_events_def emit_def steps_of_not_step)
qed




section \<open>Replacing a finalizer\<close>



section \<open>Sleeping\<close>



section \<open>Finalizers\<close>

lemma fin_bound_start: "trace s = [] \<Longrightarrow> finalizers s t = None \<Longrightarrow> fin_bound t s"
  by (simp add: fin_bound_def pending_def)

lemma execs_fin_bound: "fin_bound t s \<Longrightarrow> fin_bound t (execs n s ops)"
  using execs_rel [OF closed_under_fin_bound, of t s n ops]
  by (simp add: keeps_fin_bound_def)

lemma step_unknown:
  assumes "status (gens u t) = Suspended p aw" and "\<not> is_BaseException v"
    and "code (gens u t) p (Send v) = Yield (YOther x) p'" and "x \<noteq> VNone"
  shows "step m u t v =
           Inr (call_hook (emit (EvLog LogError)
                  (set_status (emit (EvStep t v) u) t (Suspended p' None))))"
proof -
  from assms(2) have i: "to_inp v = Send v" by (cases v) (simp_all add: to_inp_def)
  show ?thesis
    using assms(1,3,4)
    by (simp add: step_def i gen_resume_def gen_run_def emit_def dispatch_def)
qed

lemma calls_new_events:
  "grows P s s' \<Longrightarrow>
   finalizer_calls t (trace s') = finalizer_calls t (trace s) + finalizer_calls t (new_events s s')"
  using grows_new_events [of P s s'] finalizer_calls_append [of t "trace s" "new_events s s'"]
  by simp

lemma gen_run_keeps:
  "finalizers (fst (gen_run s t p i)) = finalizers s \<and> trace (fst (gen_run s t p i)) = trace s"
  by (simp add: gen_run_def set_status_def split: out.splits)

lemma after_unwind_keeps:
  "finalizers (gstate_of (after_unwind r t p e)) = finalizers (state_of r) \<and>
   trace (gstate_of (after_unwind r t p e)) = trace (state_of r)"
proof (cases r)
  case (Inl a)
  obtain f s1 where a: "a = (f, s1)" by (cases a)
  show ?thesis
  proof (cases f)
    case (Raised e1)
    with Inl a gen_run_keeps [of s1 t p "Throw e1"] show ?thesis
      by (cases "gen_run s1 t p (Throw e1)") (simp add: after_unwind_def)
  next
    case OutOfFuel
    with Inl a show ?thesis by (simp add: after_unwind_def)
  qed
next
  case (Inr s1)
  with gen_run_keeps [of s1 t p "Throw e"] show ?thesis
    by (cases "gen_run s1 t p (Throw e)") (simp add: after_unwind_def)
qed

text \<open>Resuming a task neither calls nor removes the task's own finalizer.\<close>

lemma gen_resume_keeps:
  "finalizers (gstate_of (gen_resume (close n) s t i)) t = finalizers s t \<and>
   finalizer_calls t (trace (gstate_of (gen_resume (close n) s t i))) = finalizer_calls t (trace s)"
proof (cases "status (gens s t)")
  case (Suspended p aw)
  show ?thesis
  proof (cases i)
    case (Send v)
    with Suspended gen_run_keeps [of s t p i] show ?thesis
      by (cases "gen_run s t p i") (simp add: gen_resume_def)
  next
    case (Throw e)
    let ?r = "unwind (close n) (set_status s t Running) aw"
    have "honours (untouched t) (close n)" by (simp add: honours_def close_untouched)
    from unwind_fam [OF family_closed_untouched this, where s = "set_status s t Running" and aw = aw]
    have "finalizers (state_of ?r) t = finalizers s t \<and>
          finalizer_calls t (trace (state_of ?r)) = finalizer_calls t (trace s)"
      by (simp add: untouched_def set_status_def)
    with after_unwind_keeps [of ?r t p e] Suspended Throw show ?thesis
      by (simp add: gen_resume_def)
  qed
next
  case Running
  then show ?thesis by (simp add: gen_resume_def)
next
  case Finished
  then show ?thesis by (simp add: gen_resume_def)
qed

lemma gen_resume_grows: "grows (\<lambda>e. True) s (gstate_of (gen_resume (close n) s t i))"
proof -
  have "honours (grows (\<lambda>e. True)) (close n)" by (simp add: honours_def close_grows)
  from gen_resume_fam [OF family_closed_grows _ this] show ?thesis by simp
qed

text \<open>
  \<open>finalize\<close> on a task with a finalizer installed: the finalizer is called with
  the task and the value, once, and is gone from the table.
\<close>

lemma finalize_once:
  assumes "finalizers s t = Some f"
  shows "finalizers (state_of (finalize (close n) s t v)) t = None \<and>
         finalizer_calls t (trace (state_of (finalize (close n) s t v)))
           = Suc (finalizer_calls t (trace s)) \<and>
         (\<exists>es. trace (state_of (finalize (close n) s t v)) = trace s @ EvFinalizer f t v # es)"
proof -
  let ?s1 = "pop_finalizer s t f v"
  let ?S = "state_of (call_finalizer (close n) f ?s1 t v)"
  have fin: "finalize (close n) s t v = call_finalizer (close n) f ?s1 t v"
    using assms by (simp add: finalize_def)
  have "honours (spent t) (close n)" by (simp add: honours_def close_spent)
  from call_finalizer_fam [OF family_closed_spent this, where fn = f and s = ?s1 and task = t and v = v]
  have a: "finalizers ?S t = None \<and> finalizer_calls t (trace ?S) = finalizer_calls t (trace ?s1)"
    by (simp add: spent_def pop_finalizer_def emit_def)
  have "honours (grows (\<lambda>e. True)) (close n)" by (simp add: honours_def close_grows)
  from call_finalizer_fam [OF family_closed_grows this, where fn = f and s = ?s1 and task = t and v = v]
  obtain es where "trace ?S = trace ?s1 @ es" unfolding grows_iff by blast
  then have b: "trace ?S = trace s @ EvFinalizer f t v # es"
    by (simp add: pop_finalizer_def emit_def)
  have c: "finalizer_calls t (trace ?s1) = Suc (finalizer_calls t (trace s))"
    by (simp add: pop_finalizer_def emit_def)
  from a b c show ?thesis unfolding fin by auto
qed

text \<open>What \<open>_step\<close> does when the task has ended, with a finalizer installed.\<close>

lemma step_ended:
  assumes f: "finalizers u t = Some f"
    and g: "gen_resume (close n) (emit (EvStep t v) u) t (to_inp v) = Inr (s1, x)"
    and st: "step n u t v = finalize (close n) (emit (EvLog l) s1) t r"
  shows "finalizer_calls t (new_events u (state_of (step n u t v))) = 1 \<and>
         EvFinalizer f t r \<in> set (new_events u (state_of (step n u t v))) \<and>
         finalizers (state_of (step n u t v)) t = None"
proof -
  let ?s2 = "emit (EvLog l) s1"
  let ?S = "state_of (step n u t v)"
  from gen_resume_keeps [of n "emit (EvStep t v) u" t "to_inp v"] g f
  have k: "finalizers s1 t = Some f" "finalizer_calls t (trace s1) = finalizer_calls t (trace u)"
    by (simp_all add: emit_def)
  from gen_resume_grows [of "emit (EvStep t v) u" n t "to_inp v"] g
  obtain es1 where e1: "trace s1 = trace u @ EvStep t v # es1"
    unfolding grows_iff by (auto simp: emit_def)
  have f2: "finalizers ?s2 t = Some f" using k by (simp add: emit_def)
  from finalize_once [OF f2, of n r] st obtain es where
    a: "finalizers ?S t = None"
    and b: "finalizer_calls t (trace ?S) = Suc (finalizer_calls t (trace ?s2))"
    and c: "trace ?S = trace ?s2 @ EvFinalizer f t r # es"
    by auto
  from c e1 have tr: "trace ?S = trace u @ (EvStep t v # es1 @ EvLog l # EvFinalizer f t r # es)"
    by (simp add: emit_def)
  then have ne: "new_events u ?S = EvStep t v # es1 @ EvLog l # EvFinalizer f t r # es"
    by (simp add: new_events_def)
  have "finalizer_calls t (trace ?S) = Suc (finalizer_calls t (trace u))"
    using b k by (simp add: emit_def)
  with tr ne have "finalizer_calls t (new_events u ?S) = 1"
    using finalizer_calls_append [of t "trace u" "new_events u ?S"] by simp
  with a ne show ?thesis by simp
qed

lemma step_outcomeD:
  "step_outcome n u t v = Some x \<Longrightarrow>
   \<exists>s1. gen_resume (close n) (emit (EvStep t v) u) t (to_inp v) = Inr (s1, x)"
  by (auto simp: step_outcome_def split: sum.splits prod.splits)

lemma step_returns:
  assumes "finalizers u t = Some f" and "step_outcome n u t v = Some (Returned r)"
  shows "finalizer_calls t (new_events u (state_of (step n u t v))) = 1 \<and>
         EvFinalizer f t r \<in> set (new_events u (state_of (step n u t v))) \<and>
         finalizers (state_of (step n u t v)) t = None"
proof -
  from step_outcomeD [OF assms(2)] obtain s1 where
    g: "gen_resume (close n) (emit (EvStep t v) u) t (to_inp v) = Inr (s1, Returned r)" by blast
  then have "step n u t v = finalize (close n) (emit (EvLog LogDebug) s1) t r"
    by (simp add: step_def)
  from step_ended [OF assms(1) g this] show ?thesis .
qed

lemma step_raises:
  assumes "finalizers u t = Some f" and "step_outcome n u t v = Some (Thrown e)"
    and "is_Exception e"
  shows "finalizer_calls t (new_events u (state_of (step n u t v))) = 1 \<and>
         EvFinalizer f t (VExc e) \<in> set (new_events u (state_of (step n u t v))) \<and>
         finalizers (state_of (step n u t v)) t = None"
proof -
  from step_outcomeD [OF assms(2)] obtain s1 where
    g: "gen_resume (close n) (emit (EvStep t v) u) t (to_inp v) = Inr (s1, Thrown e)" by blast
  then have "step n u t v = finalize (close n) (emit (EvLog LogException) s1) t (VExc e)"
    using assms(3) by (simp add: step_def)
  from step_ended [OF assms(1) g this] show ?thesis .
qed

lemma close_returns:
  assumes f: "finalizers s t = Some f" and ok: "\<not> isl (close (Suc n) s t)"
  shows "finalizer_calls t (new_events s (state_of (close (Suc n) s t))) = 1 \<and>
         EvFinalizer f t (VExc GeneratorExit) \<in> set (new_events s (state_of (close (Suc n) s t))) \<and>
         finalizers (state_of (close (Suc n) s t)) t = None"
proof -
  let ?s0 = "queue_discard (paused_discard s t) t"
  let ?g = "gen_resume (close n) ?s0 t (Throw GeneratorExit)"
  let ?S = "state_of (close (Suc n) s t)"
  from ok obtain s1 where gc: "gen_close (close n) ?s0 t = Inr s1"
    by (cases "gen_close (close n) ?s0 t") (simp_all add: close_body_def)
  then have s1: "s1 = gstate_of ?g"
    by (auto simp: gen_close_def split: sum.splits prod.splits resumed.splits if_splits)
  have cl: "close (Suc n) s t = finalize (close n) s1 t (VExc GeneratorExit)"
    using gc by (simp add: close_body_def)
  from gen_resume_keeps [of n ?s0 t "Throw GeneratorExit"] f s1
  have k: "finalizers s1 t = Some f" "finalizer_calls t (trace s1) = finalizer_calls t (trace s)"
    by (simp_all add: queue_discard_def paused_discard_def)
  from gen_resume_grows [of ?s0 n t "Throw GeneratorExit"] s1
  obtain es1 where e1: "trace s1 = trace s @ es1"
    unfolding grows_iff by (auto simp: queue_discard_def paused_discard_def)
  from finalize_once [OF k(1), of n "VExc GeneratorExit"] cl obtain es where
    a: "finalizers ?S t = None"
    and b: "finalizer_calls t (trace ?S) = Suc (finalizer_calls t (trace s1))"
    and c: "trace ?S = trace s1 @ EvFinalizer f t (VExc GeneratorExit) # es"
    by auto
  from c e1 have tr: "trace ?S = trace s @ (es1 @ EvFinalizer f t (VExc GeneratorExit) # es)"
    by simp
  then have ne: "new_events s ?S = es1 @ EvFinalizer f t (VExc GeneratorExit) # es"
    by (simp add: new_events_def)
  have "finalizer_calls t (trace ?S) = Suc (finalizer_calls t (trace s))"
    using b k by simp
  with tr ne have "finalizer_calls t (new_events s ?S) = 1"
    using finalizer_calls_append [of t "trace s" "new_events s ?S"] by simp
  with a ne show ?thesis by simp
qed

lemma step_unknown_outcome:
  assumes "step_outcome m u t v = Some (Yielded (YOther x))" and "x \<noteq> VNone"
  shows "finalizers (state_of (step m u t v)) t = finalizers u t \<and>
         finalizer_calls t (new_events u (state_of (step m u t v))) = 0"
proof -
  from step_outcomeD [OF assms(1)] obtain s1 where
    g: "gen_resume (close m) (emit (EvStep t v) u) t (to_inp v) = Inr (s1, Yielded (YOther x))"
    by blast
  then have st: "step m u t v = Inr (call_hook (emit (EvLog LogError) s1))"
    using assms(2) by (simp add: step_def dispatch_def)
  from gen_resume_keeps [of m "emit (EvStep t v) u" t "to_inp v"] g
  have k: "finalizers s1 t = finalizers u t" "finalizer_calls t (trace s1) = finalizer_calls t (trace u)"
    by (simp_all add: emit_def)
  have a: "finalizers (state_of (step m u t v)) t = finalizers u t"
    using k by (simp add: st call_hook_def emit_def split: option.splits)
  have "finalizer_calls t (trace (state_of (step m u t v))) = finalizer_calls t (trace u)"
    using k by (simp add: st call_hook_def emit_def split: option.splits)
  moreover have "grows (\<lambda>e. True) u (state_of (step m u t v))" by (rule step_grows)
  from calls_new_events [OF this]
  have "finalizer_calls t (trace (state_of (step m u t v)))
          = finalizer_calls t (trace u) + finalizer_calls t (new_events u (state_of (step m u t v)))" .
  ultimately show ?thesis using a by simp
qed

text \<open>
  C1, as stated, fails: task 1 has a finalizer installed and yields the integer 5.
  The loop steps it once and returns, with queue and paused index empty; the
  finalizer was never called and is still in the table.
\<close>

theorem unknown_request_never_finalized:
  "\<not> isl (run 0 [Timeout] (hooked_state code_unknown)) \<and>
   installs 1 (trace (state_of (run 0 [Timeout] (hooked_state code_unknown)))) = 1 \<and>
   finalizer_calls 1 (trace (state_of (run 0 [Timeout] (hooked_state code_unknown)))) = 0 \<and>
   finalizers (state_of (run 0 [Timeout] (hooked_state code_unknown))) 1 = Some (Callback 9) \<and>
   queue (state_of (run 0 [Timeout] (hooked_state code_unknown))) = [] \<and>
   paused (state_of (run 0 [Timeout] (hooked_state code_unknown))) = []"
  by code_simp

text \<open>
  C1, amended. From a state in which nothing has happened yet and task \<open>t\<close> has no
  finalizer, after any sequence of operations and loop turns the finalizers of \<open>t\<close>
  have been called at most as often as a finalizer was installed for \<open>t\<close>. With a
  finalizer \<open>f\<close> installed for \<open>t\<close>: a step of \<open>t\<close> that returns \<open>r\<close> calls \<open>f\<close> with \<open>r\<close>,
  a step that raises an \<open>Exception\<close> calls \<open>f\<close> with it, and a \<open>close(t)\<close> that
  returns calls \<open>f\<close> with \<open>GeneratorExit\<close>; each time this is the one call for \<open>t\<close>,
  and \<open>t\<close> has no finalizer afterwards. A step in which \<open>t\<close> yields an unrecognized
  object calls no finalizer for \<open>t\<close> and leaves the one installed where it is; when
  \<open>t\<close> was sent a value, the step only logs and the whole table is as it was.
\<close>

theorem finalizer_once_per_installation:
  assumes "trace s = []" and "finalizers s t = None"
  shows "finalizer_calls t (trace (execs n s ops)) \<le> installs t (trace (execs n s ops)) \<and>
         (finalizers u t = Some f \<and> step_outcome m u t v = Some (Returned r) \<longrightarrow>
            finalizer_calls t (new_events u (state_of (step m u t v))) = 1 \<and>
            EvFinalizer f t r \<in> set (new_events u (state_of (step m u t v))) \<and>
            finalizers (state_of (step m u t v)) t = None) \<and>
         (finalizers u t = Some f \<and> step_outcome m u t v = Some (Thrown e) \<and>
          is_Exception e \<longrightarrow>
            finalizer_calls t (new_events u (state_of (step m u t v))) = 1 \<and>
            EvFinalizer f t (VExc e) \<in> set (new_events u (state_of (step m u t v))) \<and>
            finalizers (state_of (step m u t v)) t = None) \<and>
         (finalizers u t = Some f \<and> \<not> isl (close (Suc m) u t) \<longrightarrow>
            finalizer_calls t (new_events u (state_of (close (Suc m) u t))) = 1 \<and>
            EvFinalizer f t (VExc GeneratorExit)
              \<in> set (new_events u (state_of (close (Suc m) u t))) \<and>
            finalizers (state_of (close (Suc m) u t)) t = None) \<and>
         (step_outcome m u t v = Some (Yielded (YOther x)) \<and> x \<noteq> VNone \<longrightarrow>
            finalizers (state_of (step m u t v)) t = finalizers u t \<and>
            finalizer_calls t (new_events u (state_of (step m u t v))) = 0) \<and>
         (status (gens u t) = Suspended p aw \<and> \<not> is_BaseException v \<and>
          code (gens u t) p (Send v) = Yield (YOther x) p' \<and> x \<noteq> VNone \<longrightarrow>
            step m u t v =
              Inr (call_hook (emit (EvLog LogError)
                     (set_status (emit (EvStep t v) u) t (Suspended p' None)))) \<and>
            finalizers (state_of (step m u t v)) = finalizers u)"
proof (intro conjI impI)
  from execs_fin_bound [OF fin_bound_start [OF assms], of n ops]
  show "finalizer_calls t (trace (execs n s ops)) \<le> installs t (trace (execs n s ops))"
    by (simp add: fin_bound_def)
next
  assume "finalizers u t = Some f \<and> step_outcome m u t v = Some (Returned r)"
  then have "finalizer_calls t (new_events u (state_of (step m u t v))) = 1 \<and>
            EvFinalizer f t r \<in> set (new_events u (state_of (step m u t v))) \<and>
            finalizers (state_of (step m u t v)) t = None"
    using step_returns by blast
  then show "finalizer_calls t (new_events u (state_of (step m u t v))) = 1"
    and "EvFinalizer f t r \<in> set (new_events u (state_of (step m u t v)))"
    and "finalizers (state_of (step m u t v)) t = None" by blast+
next
  assume "finalizers u t = Some f \<and> step_outcome m u t v = Some (Thrown e) \<and> is_Exception e"
  then have "finalizer_calls t (new_events u (state_of (step m u t v))) = 1 \<and>
            EvFinalizer f t (VExc e) \<in> set (new_events u (state_of (step m u t v))) \<and>
            finalizers (state_of (step m u t v)) t = None"
    using step_raises by blast
  then show "finalizer_calls t (new_events u (state_of (step m u t v))) = 1"
    and "EvFinalizer f t (VExc e) \<in> set (new_events u (state_of (step m u t v)))"
    and "finalizers (state_of (step m u t v)) t = None" by blast+
next
  assume "finalizers u t = Some f \<and> \<not> isl (close (Suc m) u t)"
  then have "finalizer_calls t (new_events u (state_of (close (Suc m) u t))) = 1 \<and>
            EvFinalizer f t (VExc GeneratorExit)
              \<in> set (new_events u (state_of (close (Suc m) u t))) \<and>
            finalizers (state_of (close (Suc m) u t)) t = None"
    using close_returns by blast
  then show "finalizer_calls t (new_events u (state_of (close (Suc m) u t))) = 1"
    and "EvFinalizer f t (VExc GeneratorExit) \<in> set (new_events u (state_of (close (Suc m) u t)))"
    and "finalizers (state_of (close (Suc m) u t)) t = None" by blast+
next
  assume "step_outcome m u t v = Some (Yielded (YOther x)) \<and> x \<noteq> VNone"
  then have "finalizers (state_of (step m u t v)) t = finalizers u t \<and>
            finalizer_calls t (new_events u (state_of (step m u t v))) = 0"
    using step_unknown_outcome by blast
  then show "finalizers (state_of (step m u t v)) t = finalizers u t"
    and "finalizer_calls t (new_events u (state_of (step m u t v))) = 0" by blast+
next
  assume h: "status (gens u t) = Suspended p aw \<and> \<not> is_BaseException v \<and>
          code (gens u t) p (Send v) = Yield (YOther x) p' \<and> x \<noteq> VNone"
  then have e: "step m u t v =
              Inr (call_hook (emit (EvLog LogError)
                     (set_status (emit (EvStep t v) u) t (Suspended p' None))))"
    using step_unknown by blast
  then show "step m u t v =
              Inr (call_hook (emit (EvLog LogError)
                     (set_status (emit (EvStep t v) u) t (Suspended p' None))))" .
  from e show "finalizers (state_of (step m u t v)) = finalizers u"
    by (simp add: call_hook_def emit_def set_status_def split: option.splits)
qed

theorem finalizer_once_per_installation_witness:
  "trace (new_task init 1 code_return) = [] \<and>
   finalizers (new_task init 1 code_return) 1 = None \<and>
   installs 1 (trace (execs 1 (new_task init 1 code_return) lifecycle)) = 1 \<and>
   finalizer_calls 1 (trace (execs 1 (new_task init 1 code_return) lifecycle)) \<le> 1 \<and>
   finalizers (hooked_state code_return) 1 = Some (Callback 9) \<and>
   step_outcome 0 (hooked_state code_return) 1 VNone = Some (Returned (VInt 7)) \<and>
   finalizer_calls 1 (new_events (hooked_state code_return)
       (state_of (step 0 (hooked_state code_return) 1 VNone))) = 1 \<and>
   EvFinalizer (Callback 9) 1 (VInt 7) \<in> set (new_events (hooked_state code_return)
       (state_of (step 0 (hooked_state code_return) 1 VNone))) \<and>
   finalizers (hooked_state code_raise) 1 = Some (Callback 9) \<and>
   step_outcome 0 (hooked_state code_raise) 1 VNone = Some (Thrown (TaskError 3)) \<and>
   is_Exception (TaskError 3) \<and>
   EvFinalizer (Callback 9) 1 (VExc (TaskError 3)) \<in> set (new_events (hooked_state code_raise)
       (state_of (step 0 (hooked_state code_raise) 1 VNone))) \<and>
   finalizers race_state 1 = Some (Callback 9) \<and> \<not> isl (close 3 race_state 1) \<and>
   finalizer_calls 1 (new_events race_state (state_of (close 3 race_state 1))) = 1 \<and>
   EvFinalizer (Callback 9) 1 (VExc GeneratorExit)
     \<in> set (new_events race_state (state_of (close 3 race_state 1))) \<and>
   step_outcome 0 (hooked_state code_unknown) 1 VNone = Some (Yielded (YOther (VInt 5))) \<and>
   VInt 5 \<noteq> VNone \<and>
   finalizers (state_of (step 0 (hooked_state code_unknown) 1 VNone)) 1 = Some (Callback 9) \<and>
   finalizer_calls 1 (new_events (hooked_state code_unknown)
       (state_of (step 0 (hooked_state code_unknown) 1 VNone))) = 0"
proof -
  have h1: "trace (new_task init 1 code_return) = []" by code_simp
  have h2: "finalizers (new_task init 1 code_return) 1 = None" by code_simp
  have i: "installs 1 (trace (execs 1 (new_task init 1 code_return) lifecycle)) = 1"
    by code_simp
  note th = finalizer_once_per_installation [OF h1 h2]
  have a: "finalizer_calls 1 (trace (execs 1 (new_task init 1 code_return) lifecycle)) \<le> 1"
    using th [of 1 lifecycle] i by simp
  have r1: "finalizers (hooked_state code_return) 1 = Some (Callback 9)" by code_simp
  have r2: "step_outcome 0 (hooked_state code_return) 1 VNone = Some (Returned (VInt 7))"
    by code_simp
  have r: "finalizer_calls 1 (new_events (hooked_state code_return)
       (state_of (step 0 (hooked_state code_return) 1 VNone))) = 1 \<and>
     EvFinalizer (Callback 9) 1 (VInt 7) \<in> set (new_events (hooked_state code_return)
       (state_of (step 0 (hooked_state code_return) 1 VNone)))"
    using th [where u = "hooked_state code_return" and f = "Callback 9" and m = 0 and v = VNone
        and r = "VInt 7"] r1 r2
    by blast
  have e1: "finalizers (hooked_state code_raise) 1 = Some (Callback 9)" by code_simp
  have e2: "step_outcome 0 (hooked_state code_raise) 1 VNone = Some (Thrown (TaskError 3))"
    by code_simp
  have e3: "is_Exception (TaskError 3)" by simp
  have e: "EvFinalizer (Callback 9) 1 (VExc (TaskError 3)) \<in> set (new_events (hooked_state code_raise)
       (state_of (step 0 (hooked_state code_raise) 1 VNone)))"
    using th [where u = "hooked_state code_raise" and f = "Callback 9" and m = 0 and v = VNone
        and e = "TaskError 3"] e1 e2 e3
    by blast
  have c1: "finalizers race_state 1 = Some (Callback 9)" by code_simp
  have c2: "\<not> isl (close (Suc 2) race_state 1)" by code_simp
  have c: "finalizer_calls 1 (new_events race_state (state_of (close (Suc 2) race_state 1))) = 1 \<and>
     EvFinalizer (Callback 9) 1 (VExc GeneratorExit)
       \<in> set (new_events race_state (state_of (close (Suc 2) race_state 1)))"
    using th [where u = race_state and f = "Callback 9" and m = 2] c1 c2
    by blast
  have s3: "Suc 2 = (3::nat)" by simp
  have u1: "step_outcome 0 (hooked_state code_unknown) 1 VNone = Some (Yielded (YOther (VInt 5)))"
    by code_simp
  have u2: "VInt 5 \<noteq> VNone" by simp
  have u3: "finalizers (hooked_state code_unknown) 1 = Some (Callback 9)" by code_simp
  have u: "finalizers (state_of (step 0 (hooked_state code_unknown) 1 VNone)) 1
             = finalizers (hooked_state code_unknown) 1 \<and>
     finalizer_calls 1 (new_events (hooked_state code_unknown)
       (state_of (step 0 (hooked_state code_unknown) 1 VNone))) = 0"
    using th [where u = "hooked_state code_unknown" and m = 0 and v = VNone and x = "VInt 5"]
      u1 u2
    by blast
  from h1 h2 i a r1 r2 r e1 e2 e3 e c1 c2 c u1 u2 u u3 show ?thesis
    unfolding s3 by simp
qed

section \<open>Closing the parent of a race\<close>

text \<open>
  C2 at a failing input. Task 1 awaits \<open>spawn(task 2)\<close> when \<open>close(task 1)\<close> is called.
  \<open>close\<close> returns normally and task 1 is finished, but the queue now holds task 1
  with \<open>GeneratorExit\<close> as value: unwinding \<open>spawn.__iter__\<close> closed task 2, whose
  finalizer \<open>spawn._finish\<close> scheduled the waiting task. On the next turn that times
  out the loop passes task 1 to \<open>_step\<close>.
\<close>

theorem closed_parent_of_race_is_stepped_again:
  "\<not> isl (close 3 race_state 1) \<and>
   queue (state_of (close 3 race_state 1)) = [(0, 1, VExc GeneratorExit)] \<and>
   status (gens (state_of (close 3 race_state 1)) 1) = Finished \<and>
   steps_of (new_events (state_of (close 3 race_state 1))
      (state_of (run_turn 3 (state_of (close 3 race_state 1)) Timeout)))
     = [(1, VExc GeneratorExit)]"
  by code_simp

section \<open>The hook after a step\<close>

text \<open>
  C4 at failing inputs. With the hook installed, a turn steps task 1. When the task
  returns, and when it raises, the events of the turn end with the call of the
  finalizer and hold no call of the hook; when the task yields, the hook is called.
\<close>

theorem hook_skipped_when_task_ends:
  "after_step_hook (hooked_state code_return) = Some 0 \<and>
   new_events (hooked_state code_return) (state_of (run_turn 0 (hooked_state code_return) Timeout))
     = [EvPoll 0, EvStep 1 VNone, EvLog LogDebug, EvFinalizer (Callback 9) 1 (VInt 7)] \<and>
   new_events (hooked_state code_raise) (state_of (run_turn 0 (hooked_state code_raise) Timeout))
     = [EvPoll 0, EvStep 1 VNone, EvLog LogException,
        EvFinalizer (Callback 9) 1 (VExc (TaskError 3))] \<and>
   new_events (hooked_state code_yield) (state_of (run_turn 0 (hooked_state code_yield) Timeout))
     = [EvPoll 0, EvStep 1 VNone, EvHook 0]"
  by code_simp

section \<open>The budget of a poll\<close>

lemma run_turn_after_poll:
  assumes cu: "closed_under P R" and al: "\<forall>e. P e" and d: "poll_delay s = Inr delay"
  shows "R (emit (EvPoll delay) (log_delay s delay)) (state_of (run_turn n s p))"
proof -
  let ?s1 = "emit (EvPoll delay) (log_delay s delay)"
  show ?thesis
  proof (cases p)
    case Timeout
    have "R ?s1 (state_of (step n (?s1\<lparr>queue := q\<rparr>) t v))" for q t v
      by (rule cu_trans [OF cu cu_queue [OF cu] step_rel [OF cu al]])
    with d Timeout show ?thesis
      by (simp add: run_turn_def Let_def utimeq_pop_def cu_refl [OF cu]
            split: list.splits prod.splits)
  next
    case (Message iface payload)
    obtain ts s2 where pp: "paused_pop ?s1 iface = (ts, s2)" by (cases "paused_pop ?s1 iface")
    have "R ?s1 s2" using paused_pop_rel [OF cu, of ?s1 iface] pp by simp
    from cu_trans [OF cu this step_all_rel [OF cu al]] d Message pp
    show ?thesis by (simp add: run_turn_def Let_def)
  next
    case (PollError e)
    with d show ?thesis by (simp add: run_turn_def Let_def cu_refl [OF cu])
  qed
qed

text \<open>
  C5, as stated, fails: the queue holds an entry due at time 0 and the clock reads
  10. The wrap-aware difference is \<open>-10\<close>, and \<open>io.poll\<close> is called with \<open>-10\<close>.
\<close>

theorem poll_called_with_negative_budget:
  "queue late_state = [(0, 1, VNone)] \<and> now late_state = 10 \<and>
   ticks_diff 0 10 = - 10 \<and>
   new_events late_state (state_of (run_turn 0 late_state Timeout))
     = [EvPoll (- 10), EvStep 1 VNone, EvHook 0]"
  by code_simp

text \<open>
  C5, amended. On every turn the first thing that happens is the call of \<open>io.poll\<close>,
  and its timeout is the wrap-aware difference between the earliest deadline and
  the current time, as it is (negative when the deadline has passed), or
  \<open>max_delay\<close> when the queue is empty.
\<close>

theorem poll_budget_is_wrap_diff:
  "\<exists>rest. trace (state_of (run_turn n s p)) =
      trace s @ EvPoll (case queue s of [] \<Rightarrow> max_delay
                        | e # q \<Rightarrow> ticks_diff (fst e) (now s)) # rest"
proof -
  let ?d = "case queue s of [] \<Rightarrow> max_delay | e # q \<Rightarrow> ticks_diff (fst e) (now s)"
  have "grows (\<lambda>e. True) (emit (EvPoll ?d) (log_delay s ?d)) (state_of (run_turn n s p))"
    by (rule run_turn_after_poll [OF closed_under_grows _ poll_delay_eq]) simp
  then obtain es where
    "trace (state_of (run_turn n s p)) = trace (emit (EvPoll ?d) (log_delay s ?d)) @ es"
    unfolding grows_iff by blast
  then have "trace (state_of (run_turn n s p)) = trace s @ EvPoll ?d # es"
    by (simp add: emit_def log_delay_def)
  then show ?thesis by blast
qed

section \<open>A cancel hook that raises\<close>

text \<open>
  C6, as stated, fails: task 1 is paused on interface 1 and raises \<open>TaskError(1)\<close> when
  it is unwound. \<open>close(task 1)\<close> raises \<open>TaskError(1)\<close>; it records nothing, and the
  finalizer of task 1 is not called and still installed.
\<close>

theorem close_raises_when_unwind_fails:
  "map_sum fst (\<lambda>s. ()) (close 1 bad_unwind_state 1) = Inl (Raised (TaskError 1)) \<and>
   finalizers bad_unwind_state 1 = Some (Callback 9) \<and>
   finalizers (state_of (close 1 bad_unwind_state 1)) 1 = Some (Callback 9) \<and>
   new_events bad_unwind_state (state_of (close 1 bad_unwind_state 1)) = []"
  by code_simp

text \<open>
  C6, amended. Let task \<open>t\<close> be suspended at a bare \<open>yield\<close> or in an \<open>__iter__\<close> without
  \<open>except\<close> clause, and let its unwinding raise \<open>e\<close>. When \<open>e\<close> is not \<open>GeneratorExit\<close>,
  \<open>close(t)\<close> raises \<open>e\<close> in the state in which \<open>t\<close> has left paused index and queue
  and is finished: no finalizer was called, none was removed, nothing was logged.
  When \<open>e\<close> is \<open>GeneratorExit\<close>, \<open>close(t)\<close> goes on with
  \<open>finalize(t, GeneratorExit())\<close>.
\<close>

theorem close_propagates_unwind_failure:
  assumes "status (gens s t) = Suspended p aw" and "plain_await aw"
    and "code (gens s t) p (Throw GeneratorExit) = Raise e"
  shows "(e \<noteq> GeneratorExit \<longrightarrow> close (Suc n) s t = Inl (Raised e, unwound s t)) \<and>
         (e = GeneratorExit \<longrightarrow>
            close (Suc n) s t = finalize (close n) (unwound s t) t (VExc GeneratorExit)) \<and>
         finalizers (unwound s t) = finalizers s \<and> trace (unwound s t) = trace s"
proof -
  let ?s0 = "queue_discard (paused_discard s t) t"
  have st: "status (gens ?s0 t) = Suspended p aw" and
    co: "code (gens ?s0 t) p (Throw GeneratorExit) = Raise e"
    using assms by (simp_all add: queue_discard_def paused_discard_def)
  have u: "unwind (close n) (set_status ?s0 t Running) aw = Inr (set_status ?s0 t Running)"
    using assms(2) by (cases aw rule: plain_await.cases) (simp_all add: unwind_def)
  have "gen_resume (close n) ?s0 t (Throw GeneratorExit) =
          Inr (gen_run (set_status ?s0 t Running) t p (Throw GeneratorExit))"
    using st by (simp add: gen_resume_def u after_unwind_def)
  moreover have "gen_run (set_status ?s0 t Running) t p (Throw GeneratorExit) =
          (unwound s t, Thrown e)"
    using co by (simp add: gen_run_def code_set_status unwound_def)
  ultimately have "gen_resume (close n) ?s0 t (Throw GeneratorExit) = Inr (unwound s t, Thrown e)"
    by simp
  then have "gen_close (close n) ?s0 t =
      (if e = GeneratorExit then Inr (unwound s t) else Inl (Raised e, unwound s t))"
    by (simp add: gen_close_def)
  then show ?thesis
    by (simp add: close_body_def unwound_def set_status_def queue_discard_def paused_discard_def)
qed

theorem close_propagates_unwind_failure_witness:
  "status (gens bad_unwind_state 1) = Suspended 1 None \<and> plain_await None \<and>
   code (gens bad_unwind_state 1) 1 (Throw GeneratorExit) = Raise (TaskError 1) \<and>
   close 1 bad_unwind_state 1 = Inl (Raised (TaskError 1), unwound bad_unwind_state 1) \<and>
   finalizers (unwound bad_unwind_state 1) 1 = Some (Callback 9)"
proof -
  have h1: "status (gens bad_unwind_state 1) = Suspended 1 None" by code_simp
  have h2: "plain_await None" by simp
  have h3: "code (gens bad_unwind_state 1) 1 (Throw GeneratorExit) = Raise (TaskError 1)"
    by code_simp
  have f: "finalizers bad_unwind_state 1 = Some (Callback 9)" by code_simp
  from close_propagates_unwind_failure [OF h1 h2 h3, of 0] h1 h2 h3 f
  show ?thesis by simp
qed

section \<open>A race without children\<close>

text \<open>
  C7, as stated, fails: task 1 awaits a \<open>spawn()\<close> without children. Handling the
  spawn raises nothing, and neither does the step; task 1 stays suspended in
  \<open>spawn.__iter__\<close>, in neither queue nor paused index, and \<open>run\<close> returns.
\<close>

theorem empty_race_signals_no_error:
  "children (spawns empty_race_state 0) = [] \<and>
   \<not> isl (handle empty_race_state (YSpawn 0) 1) \<and>
   \<not> isl (step 0 empty_race_state 1 VNone) \<and>
   status (gens (state_of (step 0 empty_race_state 1 VNone)) 1) = Suspended 1 (Some (YSpawn 0)) \<and>
   queue (state_of (step 0 empty_race_state 1 VNone)) = [] \<and>
   paused (state_of (step 0 empty_race_state 1 VNone)) = [] \<and>
   \<not> isl (run 0 [] (state_of (step 0 empty_race_state 1 VNone)))"
  by code_simp

text \<open>
  C7, amended. Handling a \<open>spawn\<close> without children raises nothing: it keeps the
  waiting task as \<open>self.callback\<close>, clears \<open>self.finished\<close> and \<open>self.scheduled\<close>, and
  leaves queue and paused index as they were, so that nothing will resume the
  waiting task.
\<close>

theorem spawn_without_children:
  assumes "children (spawns s sp) = []"
  shows "handle s (YSpawn sp) task =
           Inr (s\<lparr>spawns := (spawns s)(sp := (spawns s sp)\<lparr>finished := [], scheduled := [],
                                                          callback := Some task\<rparr>)\<rparr>) \<and>
         queue (state_of (handle s (YSpawn sp) task)) = queue s \<and>
         paused (state_of (handle s (YSpawn sp) task)) = paused s"
  using assms by (simp add: spawn_handle_def)

theorem spawn_without_children_witness:
  "children (spawns empty_race_state 0) = [] \<and>
   \<not> isl (handle empty_race_state (YSpawn 0) 1) \<and>
   callback (spawns (state_of (handle empty_race_state (YSpawn 0) 1)) 0) = Some 1 \<and>
   queue (state_of (handle empty_race_state (YSpawn 0) 1)) = queue empty_race_state"
proof -
  have h: "children (spawns empty_race_state 0) = []" by code_simp
  have c: "callback (spawns (state_of (handle empty_race_state (YSpawn 0) 1)) 0) = Some 1"
    by code_simp
  from spawn_without_children [OF h, of 1] h c show ?thesis by simp
qed

section \<open>Equal deadlines\<close>




lemma set_insert_entry [simp]: "set (insert_entry e q) = insert e (set q)"
  by (induction q) auto











section \<open>Waking the tasks paused on an interface\<close>

lemma step_all_steps:
  "\<exists>k\<le>length ts.
     steps_of (new_events s (state_of (step_all n v ts s))) = map (\<lambda>t. (t, v)) (take k ts) \<and>
     (\<not> isl (step_all n v ts s) \<longrightarrow> k = length ts)"
proof (induction ts arbitrary: s)
  case Nil
  show ?case by (simp add: new_events_def)
next
  case (Cons t ts)
  show ?case
  proof (cases "step n s t v")
    case (Inl a)
    then have "state_of (step_all n v (t # ts) s) = state_of (step n s t v)" by simp
    with step_steps [of s n t v] Inl
    have "steps_of (new_events s (state_of (step_all n v (t # ts) s)))
            = map (\<lambda>t. (t, v)) (take 1 (t # ts)) \<and>
          (\<not> isl (step_all n v (t # ts) s) \<longrightarrow> 1 = length (t # ts))"
      by simp
    moreover have "1 \<le> length (t # ts)" by simp
    ultimately show ?thesis by blast
  next
    case (Inr s1)
    from Cons.IH [of s1] obtain k where k: "k \<le> length ts"
      "steps_of (new_events s1 (state_of (step_all n v ts s1))) = map (\<lambda>t. (t, v)) (take k ts)"
      "\<not> isl (step_all n v ts s1) \<longrightarrow> k = length ts"
      by blast
    have g1: "grows (\<lambda>e. True) s s1" using step_grows [of s n t v] Inr by simp
    have s1: "steps_of (new_events s s1) = [(t, v)]" using step_steps [of s n t v] Inr by simp
    have "new_events s (state_of (step_all n v ts s1))
            = new_events s s1 @ new_events s1 (state_of (step_all n v ts s1))"
      by (rule new_events_append [OF g1 step_all_grows])
    with k s1 Inr
    have "steps_of (new_events s (state_of (step_all n v (t # ts) s)))
            = map (\<lambda>t. (t, v)) (take (Suc k) (t # ts)) \<and>
          (\<not> isl (step_all n v (t # ts) s) \<longrightarrow> Suc k = length (t # ts))"
      by simp
    moreover from k(1) have "Suc k \<le> length (t # ts)" by simp
    ultimately show ?thesis by blast
  qed
qed

lemma pause_fresh:
  "map_of (paused u) iface = None \<Longrightarrow> map_of (paused (pause u t iface)) iface = Some [t]"
  by (simp add: pause_def set_add_def update_conv)

text \<open>
  C10. On a turn where \<open>io.poll\<close> reports a message on interface \<open>iface\<close>, on which the
  set \<open>tasks\<close> is paused: the waiters are stepped from a state whose paused index has
  no entry for \<open>iface\<close>; the calls of \<open>_step\<close> on this turn are calls for the first
  \<open>k\<close> of these tasks with the payload, in order, all of them when the turn returns
  normally; no task is stepped twice; and a task that pauses on \<open>iface\<close> when the
  index has no entry for it enters a set of its own.
\<close>

theorem message_steps_popped_waiters_once:
  assumes "map_of (paused s) iface = Some tasks" and "distinct tasks"
  shows "(\<exists>u. run_turn n s (Message iface payload) = step_all n payload tasks u \<and>
              map_of (paused u) iface = None) \<and>
         (\<exists>k\<le>length tasks.
            steps_of (new_events s (state_of (run_turn n s (Message iface payload))))
              = map (\<lambda>t. (t, payload)) (take k tasks) \<and>
            (\<not> isl (run_turn n s (Message iface payload)) \<longrightarrow> k = length tasks)) \<and>
         distinct (steps_of (new_events s (state_of (run_turn n s (Message iface payload))))) \<and>
         (map_of (paused w) iface = None \<longrightarrow>
            map_of (paused (pause w t iface)) iface = Some [t])"
proof -
  let ?d = "case queue s of [] \<Rightarrow> max_delay | e # q \<Rightarrow> ticks_diff (fst e) (now s)"
  let ?s1 = "emit (EvPoll ?d) (log_delay s ?d)"
  let ?u = "?s1\<lparr>paused := AList.delete iface (paused ?s1)\<rparr>"
  have p1: "paused ?s1 = paused s" by (simp add: emit_def log_delay_def)
  have rt: "run_turn n s (Message iface payload) = step_all n payload tasks ?u"
    using assms(1) by (simp add: run_turn_def poll_delay_eq Let_def paused_pop_def p1)
  have un: "map_of (paused ?u) iface = None" by (simp add: delete_conv)
  have a: "\<exists>u. run_turn n s (Message iface payload) = step_all n payload tasks u \<and>
              map_of (paused u) iface = None"
    using rt un by blast
  have g: "grows (\<lambda>e. True) s ?u" by (simp add: grows_iff emit_def log_delay_def)
  have ne: "steps_of (new_events s ?u) = []" by (simp add: new_events_def emit_def log_delay_def)
  have "new_events s (state_of (step_all n payload tasks ?u))
          = new_events s ?u @ new_events ?u (state_of (step_all n payload tasks ?u))"
    by (rule new_events_append [OF g step_all_grows])
  then have eq: "steps_of (new_events s (state_of (run_turn n s (Message iface payload))))
          = steps_of (new_events ?u (state_of (step_all n payload tasks ?u)))"
    using ne rt by simp
  from step_all_steps [of tasks ?u n payload] obtain k where k: "k \<le> length tasks"
    "steps_of (new_events ?u (state_of (step_all n payload tasks ?u)))
       = map (\<lambda>t. (t, payload)) (take k tasks)"
    "\<not> isl (step_all n payload tasks ?u) \<longrightarrow> k = length tasks"
    by blast
  have b: "\<exists>k\<le>length tasks.
            steps_of (new_events s (state_of (run_turn n s (Message iface payload))))
              = map (\<lambda>t. (t, payload)) (take k tasks) \<and>
            (\<not> isl (run_turn n s (Message iface payload)) \<longrightarrow> k = length tasks)"
    using k eq rt by auto
  have "distinct (map (\<lambda>t. (t, payload)) (take k tasks))"
    using assms(2) by (simp add: distinct_map inj_on_def)
  then have c: "distinct (steps_of (new_events s (state_of (run_turn n s (Message iface payload)))))"
    using k(2) eq by simp
  from a b c pause_fresh show ?thesis by blast
qed

theorem message_steps_popped_waiters_once_witness:
  "map_of (paused waiting_state) 1 = Some [1, 2] \<and> distinct [1 :: nat, 2] \<and>
   \<not> isl (run_turn 0 waiting_state (Message 1 (VMsg [7]))) \<and>
   steps_of (new_events waiting_state (state_of (run_turn 0 waiting_state (Message 1 (VMsg [7])))))
     = [(1, VMsg [7]), (2, VMsg [7])] \<and>
   paused (state_of (run_turn 0 waiting_state (Message 1 (VMsg [7])))) = [(1, [1, 2])]"
proof -
  have h: "map_of (paused waiting_state) 1 = Some [1, 2]" by code_simp
  have d: "distinct [1 :: nat, 2]" by simp
  have r: "\<not> isl (run_turn 0 waiting_state (Message 1 (VMsg [7])))" by code_simp
  have p: "paused (state_of (run_turn 0 waiting_state (Message 1 (VMsg [7])))) = [(1, [1, 2])]"
    by code_simp
  from message_steps_popped_waiters_once [OF h d, of 0 "VMsg [7]"] r
  have "steps_of (new_events waiting_state
          (state_of (run_turn 0 waiting_state (Message 1 (VMsg [7])))))
     = [(1, VMsg [7]), (2, VMsg [7])]"
    by auto
  with h d r p show ?thesis by simp
qed

end
